theory Spec2Isabelle
  imports Complex_Main "HOL-Library.Word" "HOL-Library.Monad_Syntax"
begin

section \<open>Data model\<close>

text \<open>
  The displacement-map warp engine of LiquifyCanvas and the history stack of App.

  Conventions of the embedding.
  \<^item> JavaScript numbers are real numbers: the rounding of IEEE doubles and of stores into a
    Float32Array is not modelled, and neither are NaN and the infinities. Integer-valued
    quantities (indices, loop counters, floors) are \<open>int\<close>. The one place where rounding
    decides a statement, a stroke of strength 0, has a second embedding of applyDistortion in
    which every operation is rounded; it has a section of its own.
  \<^item> A typed array is a list. A read outside the array yields \<open>undefined\<close> in JavaScript
    and, in arithmetic, NaN; the model makes such a read the value \<open>None\<close>, and every
    function that reads an array returns an \<open>option\<close>. A write outside a typed array is
    ignored, in JavaScript and in \<open>arr_set\<close>.
  \<^item> The pixel buffers of ImageData objects are shared between layers, snapshots and the
    engine, so they live in an explicit store, addressed by reference.
  \<^item> React state and refs are fields of records that every operation takes and returns.
\<close>

type_synonym byte = "8 word"

type_synonym ref = nat

text \<open>The store of pixel buffers (Uint8ClampedArray objects): \<open>next_ref\<close> is the first
  reference not yet allocated.\<close>

record store =
  buffers :: "ref \<Rightarrow> byte list"
  next_ref :: ref

datatype ToolType = WARP | BLOAT | PUCKER | TWIRL_CW | LASSO | TRANSFORM

record BrushSettings =
  brush_size :: real
  strength :: real
  density :: real

type_synonym Point = "real \<times> real"

datatype BlendMode =
    SourceOver | Multiply | Screen | Overlay | Darken | Lighten | ColorDodge | ColorBurn
  | HardLight | SoftLight | Difference | Exclusion | Hue | Saturation | Color | Luminosity

text \<open>An ImageData object: \<open>data\<close> refers to its pixel buffer, four bytes (RGBA) a pixel.\<close>

record ImageData =
  data :: ref
  width :: nat
  height :: nat

text \<open>A layer; \<open>layer_id\<close>, \<open>layer_x\<close> and \<open>layer_y\<close> are the fields \<open>id\<close>, \<open>x\<close> and
  \<open>y\<close> of the source.\<close>

record Layer =
  layer_id :: string
  name :: string
  visible :: bool
  imageData :: "ImageData option"
  blendMode :: BlendMode
  opacity :: real
  layer_x :: real
  layer_y :: real
  scale :: real
  rotation :: real

record HistoryStep =
  layers :: "Layer list"
  activeLayerId :: string

text \<open>The state of App that the history operations read and write: the current layers and
  active layer id (the fields of a \<open>HistoryStep\<close>), the history and its index.\<close>

record App = HistoryStep +
  history :: "HistoryStep list"
  historyIndex :: int

text \<open>The engine refs of LiquifyCanvas; \<open>None\<close> is \<open>null\<close>.\<close>

record engine =
  mapXRef :: "real list option"
  mapYRef :: "real list option"
  activeOriginalDataRef :: "ImageData option"
  loadedLayerIdRef :: "string option"

text \<open>What the engine uses of the browser's canvas: whether \<open>getContext('2d')\<close> yields a
  context, and the bytes \<open>getImageData\<close> returns for a \<open>w \<times> h\<close> canvas filled black on
  which the closed path through the given points was filled white.\<close>

record browser =
  context2d :: bool
  fillPath :: "Point list \<Rightarrow> nat \<Rightarrow> nat \<Rightarrow> byte list"

section \<open>Typed arrays and loops\<close>

definition arr_get :: "'a list \<Rightarrow> int \<Rightarrow> 'a option" where
  "arr_get arr i = (if 0 \<le> i \<and> i < int (length arr) then Some (arr ! nat i) else None)"

definition arr_set :: "'a list \<Rightarrow> int \<Rightarrow> 'a \<Rightarrow> 'a list" where
  "arr_set arr i v = (if 0 \<le> i \<and> i < int (length arr) then arr[nat i := v] else arr)"

text \<open>\<open>for (i of is) s = body(i, s)\<close>, stopping at the first out-of-range read.\<close>

fun for_loop :: "('i \<Rightarrow> 's \<Rightarrow> 's option) \<Rightarrow> 'i list \<Rightarrow> 's \<Rightarrow> 's option" where
  "for_loop body [] s = Some s"
| "for_loop body (i # is) s = (case body i s of None \<Rightarrow> None | Some s' \<Rightarrow> for_loop body is s')"

text \<open>The conversion of a number stored into a Uint8ClampedArray (ToUint8Clamp): clamp to
  \<open>[0, 255]\<close>, round to the nearest integer, ties to even.\<close>

definition toUint8Clamp :: "real \<Rightarrow> byte" where
  "toUint8Clamp r =
    (let clamped = min (max r 0) 255;
         f = \<lfloor>clamped\<rfloor>
     in word_of_int
          (if clamped < of_int f + 1 / 2 then f
           else if clamped > of_int f + 1 / 2 then f + 1
           else if even f then f else f + 1))"

text \<open>\<open>new Uint8ClampedArray(src)\<close> and \<open>createImageData\<close>'s buffer: a fresh buffer.\<close>

definition newUint8ClampedArray :: "byte list \<Rightarrow> store \<Rightarrow> ref \<times> store" where
  "newUint8ClampedArray src st =
    (next_ref st, st\<lparr>buffers := (buffers st)(next_ref st := src), next_ref := Suc (next_ref st)\<rparr>)"

definition createImageData :: "nat \<Rightarrow> nat \<Rightarrow> store \<Rightarrow> ImageData \<times> store" where
  "createImageData w h st =
    (let (r, st') = newUint8ClampedArray (replicate (4 * w * h) 0) st
     in (\<lparr>data = r, width = w, height = h\<rparr>, st'))"

section \<open>The resampler\<close>

text \<open>The closure \<open>sample\<close> of applyDistortion: bilinear interpolation of a \<open>w \<times> h\<close>
  Float32Array at \<open>(u, v)\<close>.\<close>

definition sample :: "real list \<Rightarrow> int \<Rightarrow> int \<Rightarrow> real \<Rightarrow> real \<Rightarrow> real option" where
  "sample arr w h u v =
    (let x0 = \<lfloor>u\<rfloor>; x1 = x0 + 1;
         y0 = \<lfloor>v\<rfloor>; y1 = y0 + 1;
         sx0 = max 0 (min (w - 1) x0);
         sx1 = max 0 (min (w - 1) x1);
         sy0 = max 0 (min (h - 1) y0);
         sy1 = max 0 (min (h - 1) y1);
         mu = u - of_int x0;
         mv = v - of_int y0
     in do {
       a00 \<leftarrow> arr_get arr (sy0 * w + sx0);
       a10 \<leftarrow> arr_get arr (sy0 * w + sx1);
       a01 \<leftarrow> arr_get arr (sy1 * w + sx0);
       a11 \<leftarrow> arr_get arr (sy1 * w + sx1);
       Some (a00 * (1 - mu) * (1 - mv) + a10 * mu * (1 - mv)
             + a01 * (1 - mu) * mv + a11 * mu * mv)
     })"

text \<open>The resampling inside renderRegionFromMapsRef: channel \<open>c\<close> of the original pixels at
  the source point \<open>(srcX, srcY)\<close>, before it is stored into the output buffer.\<close>

definition resampleChannel :: "byte list \<Rightarrow> int \<Rightarrow> int \<Rightarrow> real \<Rightarrow> real \<Rightarrow> int \<Rightarrow> real option" where
  "resampleChannel originalPixels origW origH srcX srcY c =
    (let x0 = \<lfloor>srcX\<rfloor>; x1 = x0 + 1;
         y0 = \<lfloor>srcY\<rfloor>; y1 = y0 + 1;
         sx0 = max 0 (min (origW - 1) x0);
         sx1 = max 0 (min (origW - 1) x1);
         sy0 = max 0 (min (origH - 1) y0);
         sy1 = max 0 (min (origH - 1) y1);
         u = srcX - of_int x0;
         v = srcY - of_int y0;
         i00 = (sy0 * origW + sx0) * 4;
         i10 = (sy0 * origW + sx1) * 4;
         i01 = (sy1 * origW + sx0) * 4;
         i11 = (sy1 * origW + sx1) * 4
     in do {
       p00 \<leftarrow> arr_get originalPixels (i00 + c);
       p10 \<leftarrow> arr_get originalPixels (i10 + c);
       p01 \<leftarrow> arr_get originalPixels (i01 + c);
       p11 \<leftarrow> arr_get originalPixels (i11 + c);
       Some (real (unat p00) * (1 - u) * (1 - v) + real (unat p10) * u * (1 - v)
             + real (unat p01) * (1 - u) * v + real (unat p11) * u * v)
     })"

section \<open>Engine initialisation, rendering and baking\<close>

definition initEngine :: "Layer \<Rightarrow> engine \<Rightarrow> engine" where
  "initEngine layer eng =
    (case imageData layer of
       None \<Rightarrow> eng
     | Some img \<Rightarrow>
         let w = int (width img);
             h = int (height img);
             count = w * h;
             (newMapX, newMapY) =
               fold (\<lambda>y. fold (\<lambda>x (mX, mY).
                       let i = y * w + x
                       in (arr_set mX i (of_int x), arr_set mY i (of_int y)))
                     [0..w - 1])
                 [0..h - 1]
                 (replicate (nat count) 0, replicate (nat count) 0)
         in \<lparr>mapXRef = Some newMapX, mapYRef = Some newMapY,
             activeOriginalDataRef = Some img, loadedLayerIdRef = Some (layer_id layer)\<rparr>)"

text \<open>The body of the two loops of renderRegionFromMapsRef: the four channels of the output
  pixel \<open>(x, y)\<close> of the region.\<close>

definition renderPixel ::
  "int \<Rightarrow> int \<Rightarrow> int \<Rightarrow> int \<Rightarrow> real list \<Rightarrow> real list \<Rightarrow> byte list \<Rightarrow> int \<Rightarrow> int
     \<Rightarrow> int \<Rightarrow> int \<Rightarrow> byte list \<Rightarrow> byte list option" where
  "renderPixel startX startY regionW totalW mapX mapY originalPixels origW origH y x outputBuffer =
    do {
      let globalX = startX + x;
      let globalY = startY + y;
      let pIndex = globalY * totalW + globalX;
      srcX \<leftarrow> arr_get mapX pIndex;
      srcY \<leftarrow> arr_get mapY pIndex;
      let outIndex = (y * regionW + x) * 4;
      for_loop (\<lambda>c out. do {
          p \<leftarrow> resampleChannel originalPixels origW origH srcX srcY c;
          Some (arr_set out (outIndex + c) (toUint8Clamp p))
        }) [0..3] outputBuffer
    }"

text \<open>renderRegionFromMapsRef; the ImageData \<open>original\<close> is passed as its pixels, width and
  height, and the output buffer, which the source mutates, is returned. Both callers pass a
  buffer they have just created, never the buffer of \<open>original\<close>.\<close>

definition renderRegionFromMapsRef ::
  "byte list \<Rightarrow> int \<Rightarrow> int \<Rightarrow> int \<Rightarrow> int \<Rightarrow> int \<Rightarrow> int \<Rightarrow> real list \<Rightarrow> real list
     \<Rightarrow> byte list \<Rightarrow> int \<Rightarrow> int \<Rightarrow> byte list option" where
  "renderRegionFromMapsRef outputBuffer startX startY regionW regionH totalW totalH
       mapX mapY originalPixels origW origH =
    for_loop (\<lambda>y. for_loop (\<lambda>x.
        renderPixel startX startY regionW totalW mapX mapY originalPixels origW origH y x)
      [0..regionW - 1]) [0..regionH - 1] outputBuffer"

definition bakeCurrentWarp :: "browser \<Rightarrow> engine \<Rightarrow> store \<Rightarrow> (ImageData option \<times> store) option" where
  "bakeCurrentWarp br eng st =
    (case (mapXRef eng, mapYRef eng, activeOriginalDataRef eng) of
       (Some mapX, Some mapY, Some original) \<Rightarrow>
         let w = width original;
             h = height original
         in if \<not> context2d br then Some (None, st)
            else
              let (output, st1) = createImageData w h st
              in do {
                out \<leftarrow> renderRegionFromMapsRef (buffers st1 (data output)) 0 0 (int w) (int h)
                         (int w) (int h) mapX mapY (buffers st1 (data original))
                         (int (width original)) (int (height original));
                Some (Some output, st1\<lparr>buffers := (buffers st1)(data output := out)\<rparr>)
              }
     | _ \<Rightarrow> Some (None, st))"

section \<open>The brush stroke applicator\<close>

text \<open>The falloff of applyDistortion: \<open>power\<close> at squared distance \<open>distSq\<close> from the centre.\<close>

definition brushPower :: "real \<Rightarrow> real \<Rightarrow> real \<Rightarrow> real" where
  "brushPower localRadius brushStrength distSq =
    (let dist = sqrt distSq;
         factor = (localRadius - dist) / localRadius;
         smoothFactor = factor * factor * (3 - 2 * factor)
     in smoothFactor * brushStrength)"

text \<open>The source lookup point of a tool at the pixel \<open>(globalX, globalY)\<close>; \<open>pwr\<close> is
  the source's \<open>power\<close>.\<close>

definition sourceLookup ::
  "ToolType \<Rightarrow> real \<Rightarrow> real \<Rightarrow> real \<Rightarrow> real \<Rightarrow> real \<Rightarrow> int \<Rightarrow> int \<Rightarrow> real \<times> real" where
  "sourceLookup tool mouseX mouseY dx dy pwr globalX globalY =
    (let offsetX = of_int globalX - mouseX;
         offsetY = of_int globalY - mouseY
     in if tool = WARP then
          (of_int globalX - dx * pwr, of_int globalY - dy * pwr)
        else if tool = BLOAT then
          (of_int globalX - offsetX * pwr * (1 / 10), of_int globalY - offsetY * pwr * (1 / 10))
        else if tool = PUCKER then
          (of_int globalX + offsetX * pwr * (1 / 10), of_int globalY + offsetY * pwr * (1 / 10))
        else if tool = TWIRL_CW then
          (let angle = (1 / 10) * pwr;
               sn = sin angle;
               cs = cos angle;
               rotX = offsetX * cs - offsetY * sn;
               rotY = offsetX * sn + offsetY * cs
           in (mouseX + rotX, mouseY + rotY))
        else (of_int globalX, of_int globalY))"

text \<open>The pair of values the first pass of applyDistortion writes into the scratch buffers for
  the pixel \<open>(globalX, globalY)\<close>, computed from the map as it is before the stroke.\<close>

definition distortCell ::
  "ToolType \<Rightarrow> real \<Rightarrow> real \<Rightarrow> real \<Rightarrow> real \<Rightarrow> real \<Rightarrow> real \<Rightarrow> real list \<Rightarrow> real list
     \<Rightarrow> int \<Rightarrow> int \<Rightarrow> int \<Rightarrow> int \<Rightarrow> (real \<times> real) option" where
  "distortCell tool brushStrength localRadius mouseX mouseY dx dy mapX mapY w h globalX globalY =
    (let radiusSq = localRadius * localRadius;
         offsetX = of_int globalX - mouseX;
         offsetY = of_int globalY - mouseY;
         distSq = offsetX * offsetX + offsetY * offsetY
     in if distSq < radiusSq then
          let pwr = brushPower localRadius brushStrength distSq;
              (sourceLookupX, sourceLookupY) =
                 sourceLookup tool mouseX mouseY dx dy pwr globalX globalY
          in do {
            vx \<leftarrow> sample mapX w h sourceLookupX sourceLookupY;
            vy \<leftarrow> sample mapY w h sourceLookupX sourceLookupY;
            Some (vx, vy)
          }
        else do {
          let idx = globalY * w + globalX;
          vx \<leftarrow> arr_get mapX idx;
          vy \<leftarrow> arr_get mapY idx;
          Some (vx, vy)
        })"

definition localRadiusOf :: "BrushSettings \<Rightarrow> real \<Rightarrow> Layer list \<Rightarrow> string \<Rightarrow> real" where
  "localRadiusOf brushSettings zoomLevel layersRef activeId =
    (let layer = find (\<lambda>l. layer_id l = activeId) layersRef;
         layerScale = (case layer of Some l \<Rightarrow> scale l | None \<Rightarrow> 1)
     in (brush_size brushSettings / 2) / zoomLevel / layerScale)"

text \<open>The first pass of applyDistortion: the scratch buffers \<open>tempMapX\<close> and \<open>tempMapY\<close>
  of the bounding box, filled from the map.\<close>

definition distortRegion ::
  "ToolType \<Rightarrow> real \<Rightarrow> real \<Rightarrow> real \<Rightarrow> real \<Rightarrow> real \<Rightarrow> real \<Rightarrow> real list \<Rightarrow> real list
     \<Rightarrow> int \<Rightarrow> int \<Rightarrow> int \<Rightarrow> int \<Rightarrow> int \<Rightarrow> int \<Rightarrow> (real list \<times> real list) option" where
  "distortRegion tool brushStrength localRadius mouseX mouseY dx dy mapX mapY w h
       minX minY regionW regionH =
    for_loop (\<lambda>y. for_loop (\<lambda>x (tempMapX, tempMapY). do {
        (vx, vy) \<leftarrow> distortCell tool brushStrength localRadius mouseX mouseY dx dy mapX mapY w h
                      (minX + x) (minY + y);
        Some (arr_set tempMapX (y * regionW + x) vx, arr_set tempMapY (y * regionW + x) vy)
      }) [0..regionW - 1]) [0..regionH - 1]
      (replicate (nat (regionW * regionH)) 0, replicate (nat (regionW * regionH)) 0)"

text \<open>The second pass: the scratch buffers are copied into the map at the bounding box.\<close>

definition commitRegion ::
  "real list \<Rightarrow> real list \<Rightarrow> int \<Rightarrow> int \<Rightarrow> int \<Rightarrow> int \<Rightarrow> int \<Rightarrow> real list \<times> real list
     \<Rightarrow> (real list \<times> real list) option" where
  "commitRegion tempMapX tempMapY w minX minY regionW regionH maps =
    for_loop (\<lambda>y. for_loop (\<lambda>x (mapX, mapY). do {
        let idx = (minY + y) * w + (minX + x);
        vx \<leftarrow> arr_get tempMapX (y * regionW + x);
        vy \<leftarrow> arr_get tempMapY (y * regionW + x);
        Some (arr_set mapX idx vx, arr_set mapY idx vy)
      }) [0..regionW - 1]) [0..regionH - 1] maps"

text \<open>applyDistortion. The props and state the closure reads (\<open>tool\<close>, \<open>brushSettings\<close>,
  \<open>zoomLevel\<close>, \<open>layersRef.current\<close>, and \<open>activeLayerId\<close> as \<open>activeId\<close>) and the
  engine refs come first, the function's own arguments last.\<close>

definition applyDistortion ::
  "ToolType \<Rightarrow> BrushSettings \<Rightarrow> real \<Rightarrow> Layer list \<Rightarrow> string \<Rightarrow> engine
     \<Rightarrow> real \<Rightarrow> real \<Rightarrow> real \<Rightarrow> real \<Rightarrow> engine option" where
  "applyDistortion tool brushSettings zoomLevel layersRef activeId eng mouseX mouseY prevX prevY =
    (case (mapXRef eng, mapYRef eng, activeOriginalDataRef eng) of
       (Some mapX, Some mapY, Some original) \<Rightarrow>
         let w = int (width original);
             h = int (height original);
             localRadius = localRadiusOf brushSettings zoomLevel layersRef activeId;
             minX = max 0 \<lfloor>mouseX - localRadius\<rfloor>;
             minY = max 0 \<lfloor>mouseY - localRadius\<rfloor>;
             maxX = min w \<lceil>mouseX + localRadius\<rceil>;
             maxY = min h \<lceil>mouseY + localRadius\<rceil>;
             regionW = maxX - minX;
             regionH = maxY - minY
         in if regionW \<le> 0 \<or> regionH \<le> 0 then Some eng
            else
              let dx = mouseX - prevX;
                  dy = mouseY - prevY
              in do {
                (tempMapX, tempMapY) \<leftarrow>
                  distortRegion tool (strength brushSettings) localRadius mouseX mouseY dx dy
                    mapX mapY w h minX minY regionW regionH;
                (mapX', mapY') \<leftarrow>
                  commitRegion tempMapX tempMapY w minX minY regionW regionH (mapX, mapY);
                Some (eng\<lparr>mapXRef := Some mapX', mapYRef := Some mapY'\<rparr>)
              }
     | _ \<Rightarrow> Some eng)"

section \<open>The lasso mask\<close>

definition rotatePoint :: "Point \<Rightarrow> Point \<Rightarrow> real \<Rightarrow> Point" where
  "rotatePoint p origin angle =
    (let cs = cos angle;
         sn = sin angle;
         dx = fst p - fst origin;
         dy = snd p - snd origin
     in (fst origin + (dx * cs - dy * sn), snd origin + (dx * sn + dy * cs)))"

definition worldToLocal :: "Point \<Rightarrow> Layer \<Rightarrow> real \<Rightarrow> real \<Rightarrow> Point" where
  "worldToLocal p layer w h =
    (let cx = layer_x layer;
         cy = layer_y layer;
         unrotated = rotatePoint p (cx, cy) (- rotation layer);
         unscaledX = (fst unrotated - cx) / scale layer;
         unscaledY = (snd unrotated - cy) / scale layer
     in (unscaledX + w / 2, unscaledY + h / 2))"

text \<open>The loop \<open>for (i = 0; i < newPixels.length; i += 4)\<close> of applyLassoMask. A mask read
  outside the array is \<open>undefined\<close>, which is not \<open>=== 0\<close>.\<close>

function maskLoop :: "byte list \<Rightarrow> int \<Rightarrow> byte list \<Rightarrow> byte list" where
  "maskLoop maskData i newPixels =
    (if i < int (length newPixels) then
       maskLoop maskData (i + 4)
         (if arr_get maskData i = Some 0 then arr_set newPixels (i + 3) 0 else newPixels)
     else newPixels)"
  by pat_completeness auto
termination
  by (relation "measure (\<lambda>(maskData, i, newPixels). nat (int (length newPixels) - i))")
     (auto simp: arr_set_def)

text \<open>applyLassoMask, from the state \<open>lassoPath\<close>, the props \<open>layersRef.current\<close> and
  \<open>activeLayerId\<close> and the engine refs. It returns the engine refs, the lasso path, the
  argument of \<open>onInteractionEnd\<close> when that callback is called, and the store; \<open>None\<close> is
  the TypeError of using a null mask context, or an out-of-range read while baking.\<close>

definition applyLassoMask ::
  "browser \<Rightarrow> Point list \<Rightarrow> Layer list \<Rightarrow> string \<Rightarrow> engine \<Rightarrow> store
     \<Rightarrow> (engine \<times> Point list \<times> Layer list option \<times> store) option" where
  "applyLassoMask br lassoPath layersRef activeId eng st =
    (case activeOriginalDataRef eng of
       None \<Rightarrow> Some (eng, lassoPath, None, st)
     | Some original \<Rightarrow>
         if length lassoPath < 3 then Some (eng, lassoPath, None, st)
         else
           (case find (\<lambda>l. layer_id l = activeId) layersRef of
              None \<Rightarrow> Some (eng, lassoPath, None, st)
            | Some activeLayer \<Rightarrow> do {
                let w = width original;
                let h = height original;
                (workingData, st1) \<leftarrow>
                  (if mapXRef eng \<noteq> None \<and> mapYRef eng \<noteq> None then do {
                     (baked, st') \<leftarrow> bakeCurrentWarp br eng st;
                     Some (case baked of Some b \<Rightarrow> b | None \<Rightarrow> original, st')
                   } else Some (original, st));
                if \<not> context2d br then None
                else do {
                  let maskData =
                    fillPath br (map (\<lambda>p. worldToLocal p activeLayer (real w) (real h)) lassoPath) w h;
                  let (newPixels, st2) = newUint8ClampedArray (buffers st1 (data workingData)) st1;
                  let st3 = st2\<lparr>buffers := (buffers st2)
                               (newPixels := maskLoop maskData 0 (buffers st2 newPixels))\<rparr>;
                  let finalData = \<lparr>data = newPixels, width = w, height = h\<rparr>;
                  let updatedLayers =
                    map (\<lambda>l. if layer_id l = activeId then l\<lparr>imageData := Some finalData\<rparr> else l)
                      layersRef;
                  Some (initEngine (activeLayer\<lparr>imageData := Some finalData\<rparr>) eng, [],
                        Some updatedLayers, st3)
                }
              }))"

section \<open>History\<close>

definition HISTORY_MAX_STEPS :: int where
  "HISTORY_MAX_STEPS = 20"

text \<open>cloneLayers: every layer is copied, and the pixel buffer of a layer that has image data
  is copied into a fresh buffer.\<close>

fun cloneLayers :: "Layer list \<Rightarrow> store \<Rightarrow> Layer list \<times> store" where
  "cloneLayers [] st = ([], st)"
| "cloneLayers (layer # rest) st =
    (case imageData layer of
       None \<Rightarrow>
         let (rest', st') = cloneLayers rest st
         in (layer\<lparr>imageData := None\<rparr> # rest', st')
     | Some img \<Rightarrow>
         let (r, st1) = newUint8ClampedArray (buffers st (data img)) st;
             (rest', st2) = cloneLayers rest st1
         in (layer\<lparr>imageData := Some \<lparr>data = r, width = width img, height = height img\<rparr>\<rparr> # rest',
             st2))"

text \<open>\<open>xs.slice(0, e)\<close>: a negative end counts from the end of the array.\<close>

definition slice0 :: "'a list \<Rightarrow> int \<Rightarrow> 'a list" where
  "slice0 xs e =
    (let len = int (length xs);
         k = (if e < 0 then max (len + e) 0 else min e len)
     in take (nat k) xs)"

text \<open>commitToHistory is memoised with \<open>useCallback\<close> on \<open>historyIndex\<close>: the updater it passes
  to \<open>setHistory\<close> slices with the \<open>historyIndex\<close> of the render that created the callback,
  here \<open>closedIndex\<close>, while the updater it passes to \<open>setHistoryIndex\<close> increments the
  current value, here \<open>historyIndex app\<close>. A call made from the current render has
  \<open>closedIndex = historyIndex app\<close>; a call made through a callback that outlived its render
  (\<open>img.onload\<close> in addImageLayer, created when the file was chosen) has the index of that
  earlier render.\<close>

definition commitToHistory ::
  "int \<Rightarrow> Layer list \<Rightarrow> string \<Rightarrow> App \<Rightarrow> store \<Rightarrow> App \<times> store" where
  "commitToHistory closedIndex newLayers newActiveId app st =
    (let currentHist = slice0 (history app) (closedIndex + 1);
         (cloned, st') = cloneLayers newLayers st;
         snapshot = \<lparr>layers = cloned, activeLayerId = newActiveId\<rparr>;
         newHist = currentHist @ [snapshot];
         newHist = (if int (length newHist) > HISTORY_MAX_STEPS then tl newHist else newHist);
         nxt = historyIndex app + 1
     in (app\<lparr>history := newHist,
             historyIndex := (if nxt \<ge> HISTORY_MAX_STEPS then HISTORY_MAX_STEPS - 1 else nxt)\<rparr>,
         st'))"

text \<open>undoAction and redoAction are plain functions of the render that handles the event, so
  they see the current state. Reading \<open>history[i]\<close> outside the array gives \<open>undefined\<close>, and
  \<open>step.layers\<close> then throws: the value \<open>None\<close>.\<close>

definition undoAction :: "App \<Rightarrow> store \<Rightarrow> (App \<times> store) option" where
  "undoAction app st =
    (if historyIndex app > 0 then
       let prevIndex = historyIndex app - 1
       in (case arr_get (history app) prevIndex of
             None \<Rightarrow> None
           | Some step \<Rightarrow>
               let (cloned, st') = cloneLayers (layers step) st
               in Some (app\<lparr>layers := cloned, activeLayerId := activeLayerId step,
                            historyIndex := prevIndex\<rparr>, st'))
     else Some (app, st))"

definition redoAction :: "App \<Rightarrow> store \<Rightarrow> (App \<times> store) option" where
  "redoAction app st =
    (if historyIndex app < int (length (history app)) - 1 then
       let nextIndex = historyIndex app + 1
       in (case arr_get (history app) nextIndex of
             None \<Rightarrow> None
           | Some step \<Rightarrow>
               let (cloned, st') = cloneLayers (layers step) st
               in Some (app\<lparr>layers := cloned, activeLayerId := activeLayerId step,
                            historyIndex := nextIndex\<rparr>, st'))
     else Some (app, st))"

section \<open>The stroke in double-precision arithmetic\<close>

text \<open>JavaScript numbers are IEEE 754 binary64 values and the map arrays are \<open>Float32Array\<close>s
  of binary32 values. Where a statement depends on rounding, applyDistortion is embedded a
  second time, with the result of every arithmetic operation rounded to the nearest binary64
  value, ties to even, and every value stored into a \<open>Float32Array\<close> rounded to the nearest
  binary32 value. Values are still real numbers: \<open>round64\<close> and \<open>round32\<close> describe the
  rounding of finite values in the normal range, so overflow, subnormal numbers, NaN,
  infinities and the sign of zero are outside this embedding, and the arguments of a stroke
  are taken to be binary64 values already. \<open>Math.sqrt\<close>, \<open>Math.sin\<close> and \<open>Math.cos\<close> are
  taken as correctly rounded; they return \<open>0\<close>, \<open>0\<close> and \<open>1\<close> at \<open>0\<close>.\<close>

definition roundTiesToEven :: "real \<Rightarrow> int" where
  "roundTiesToEven r =
    (let f = \<lfloor>r\<rfloor>
     in if r < of_int f + 1 / 2 then f
        else if r > of_int f + 1 / 2 then f + 1
        else if even f then f else f + 1)"

text \<open>Rounding to \<open>p\<close> significant bits: \<open>x\<close> lies in the binade \<open>[2\<^sup>e, 2\<^sup>e\<^sup>+\<^sup>1)\<close>, whose values
  of precision \<open>p\<close> are the multiples of \<open>2\<^sup>e\<^sup>-\<^sup>p\<^sup>+\<^sup>1\<close>.\<close>

definition roundToPrecision :: "nat \<Rightarrow> real \<Rightarrow> real" where
  "roundToPrecision p x =
    (if x = 0 then 0
     else let e = \<lfloor>log 2 \<bar>x\<bar>\<rfloor>;
              ulp = 2 powr of_int (e - int p + 1)
          in of_int (roundTiesToEven (x / ulp)) * ulp)"

definition round64 :: "real \<Rightarrow> real" where
  "round64 x = roundToPrecision 53 x"

definition round32 :: "real \<Rightarrow> real" where
  "round32 x = roundToPrecision 24 x"

definition brushPower64 :: "real \<Rightarrow> real \<Rightarrow> real \<Rightarrow> real" where
  "brushPower64 localRadius brushStrength distSq =
    (let dist = round64 (sqrt distSq);
         factor = round64 (round64 (localRadius - dist) / localRadius);
         smoothFactor = round64 (round64 (factor * factor) * round64 (3 - round64 (2 * factor)))
     in round64 (smoothFactor * brushStrength))"

definition sourceLookup64 ::
  "ToolType \<Rightarrow> real \<Rightarrow> real \<Rightarrow> real \<Rightarrow> real \<Rightarrow> real \<Rightarrow> int \<Rightarrow> int \<Rightarrow> real \<times> real" where
  "sourceLookup64 tool mouseX mouseY dx dy pwr globalX globalY =
    (let offsetX = round64 (of_int globalX - mouseX);
         offsetY = round64 (of_int globalY - mouseY)
     in if tool = WARP then
          (round64 (of_int globalX - round64 (dx * pwr)),
           round64 (of_int globalY - round64 (dy * pwr)))
        else if tool = BLOAT then
          (round64 (of_int globalX - round64 (round64 (offsetX * pwr) * round64 (1 / 10))),
           round64 (of_int globalY - round64 (round64 (offsetY * pwr) * round64 (1 / 10))))
        else if tool = PUCKER then
          (round64 (of_int globalX + round64 (round64 (offsetX * pwr) * round64 (1 / 10))),
           round64 (of_int globalY + round64 (round64 (offsetY * pwr) * round64 (1 / 10))))
        else if tool = TWIRL_CW then
          (let angle = round64 (round64 (1 / 10) * pwr);
               sn = round64 (sin angle);
               cs = round64 (cos angle);
               rotX = round64 (round64 (offsetX * cs) - round64 (offsetY * sn));
               rotY = round64 (round64 (offsetX * sn) + round64 (offsetY * cs))
           in (round64 (mouseX + rotX), round64 (mouseY + rotY)))
        else (of_int globalX, of_int globalY))"

definition sample64 :: "real list \<Rightarrow> int \<Rightarrow> int \<Rightarrow> real \<Rightarrow> real \<Rightarrow> real option" where
  "sample64 arr w h u v =
    (let x0 = \<lfloor>u\<rfloor>; x1 = x0 + 1;
         y0 = \<lfloor>v\<rfloor>; y1 = y0 + 1;
         sx0 = max 0 (min (w - 1) x0);
         sx1 = max 0 (min (w - 1) x1);
         sy0 = max 0 (min (h - 1) y0);
         sy1 = max 0 (min (h - 1) y1);
         mu = round64 (u - of_int x0);
         mv = round64 (v - of_int y0)
     in do {
       a00 \<leftarrow> arr_get arr (sy0 * w + sx0);
       a10 \<leftarrow> arr_get arr (sy0 * w + sx1);
       a01 \<leftarrow> arr_get arr (sy1 * w + sx0);
       a11 \<leftarrow> arr_get arr (sy1 * w + sx1);
       Some (round64 (round64 (round64
               (round64 (round64 (a00 * round64 (1 - mu)) * round64 (1 - mv))
                + round64 (round64 (a10 * mu) * round64 (1 - mv)))
                + round64 (round64 (a01 * round64 (1 - mu)) * mv))
                + round64 (round64 (a11 * mu) * mv)))
     })"

text \<open>The values stored into the scratch buffers, which are \<open>Float32Array\<close>s: a resampled value
  is rounded to binary32, a copied entry is a binary32 value already.\<close>

definition distortCell64 ::
  "ToolType \<Rightarrow> real \<Rightarrow> real \<Rightarrow> real \<Rightarrow> real \<Rightarrow> real \<Rightarrow> real \<Rightarrow> real list \<Rightarrow> real list
     \<Rightarrow> int \<Rightarrow> int \<Rightarrow> int \<Rightarrow> int \<Rightarrow> (real \<times> real) option" where
  "distortCell64 tool brushStrength localRadius mouseX mouseY dx dy mapX mapY w h globalX globalY =
    (let radiusSq = round64 (localRadius * localRadius);
         offsetX = round64 (of_int globalX - mouseX);
         offsetY = round64 (of_int globalY - mouseY);
         distSq = round64 (round64 (offsetX * offsetX) + round64 (offsetY * offsetY))
     in if distSq < radiusSq then
          let pwr = brushPower64 localRadius brushStrength distSq;
              (sourceLookupX, sourceLookupY) =
                 sourceLookup64 tool mouseX mouseY dx dy pwr globalX globalY
          in do {
            vx \<leftarrow> sample64 mapX w h sourceLookupX sourceLookupY;
            vy \<leftarrow> sample64 mapY w h sourceLookupX sourceLookupY;
            Some (round32 vx, round32 vy)
          }
        else do {
          let idx = globalY * w + globalX;
          vx \<leftarrow> arr_get mapX idx;
          vy \<leftarrow> arr_get mapY idx;
          Some (vx, vy)
        })"

definition localRadiusOf64 :: "BrushSettings \<Rightarrow> real \<Rightarrow> Layer list \<Rightarrow> string \<Rightarrow> real" where
  "localRadiusOf64 brushSettings zoomLevel layersRef activeId =
    (let layer = find (\<lambda>l. layer_id l = activeId) layersRef;
         layerScale = (case layer of Some l \<Rightarrow> scale l | None \<Rightarrow> 1)
     in round64 (round64 (round64 (brush_size brushSettings / 2) / zoomLevel) / layerScale))"

definition distortRegion64 ::
  "ToolType \<Rightarrow> real \<Rightarrow> real \<Rightarrow> real \<Rightarrow> real \<Rightarrow> real \<Rightarrow> real \<Rightarrow> real list \<Rightarrow> real list
     \<Rightarrow> int \<Rightarrow> int \<Rightarrow> int \<Rightarrow> int \<Rightarrow> int \<Rightarrow> int \<Rightarrow> (real list \<times> real list) option" where
  "distortRegion64 tool brushStrength localRadius mouseX mouseY dx dy mapX mapY w h
       minX minY regionW regionH =
    for_loop (\<lambda>y. for_loop (\<lambda>x (tempMapX, tempMapY). do {
        (vx, vy) \<leftarrow> distortCell64 tool brushStrength localRadius mouseX mouseY dx dy mapX mapY w h
                      (minX + x) (minY + y);
        Some (arr_set tempMapX (y * regionW + x) vx, arr_set tempMapY (y * regionW + x) vy)
      }) [0..regionW - 1]) [0..regionH - 1]
      (replicate (nat (regionW * regionH)) 0, replicate (nat (regionW * regionH)) 0)"

text \<open>applyDistortion in double precision. The second pass copies binary32 values between
  \<open>Float32Array\<close>s and is \<open>commitRegion\<close> unchanged.\<close>

definition applyDistortion64 ::
  "ToolType \<Rightarrow> BrushSettings \<Rightarrow> real \<Rightarrow> Layer list \<Rightarrow> string \<Rightarrow> engine
     \<Rightarrow> real \<Rightarrow> real \<Rightarrow> real \<Rightarrow> real \<Rightarrow> engine option" where
  "applyDistortion64 tool brushSettings zoomLevel layersRef activeId eng mouseX mouseY prevX prevY =
    (case (mapXRef eng, mapYRef eng, activeOriginalDataRef eng) of
       (Some mapX, Some mapY, Some original) \<Rightarrow>
         let w = int (width original);
             h = int (height original);
             localRadius = localRadiusOf64 brushSettings zoomLevel layersRef activeId;
             minX = max 0 \<lfloor>round64 (mouseX - localRadius)\<rfloor>;
             minY = max 0 \<lfloor>round64 (mouseY - localRadius)\<rfloor>;
             maxX = min w \<lceil>round64 (mouseX + localRadius)\<rceil>;
             maxY = min h \<lceil>round64 (mouseY + localRadius)\<rceil>;
             regionW = maxX - minX;
             regionH = maxY - minY
         in if regionW \<le> 0 \<or> regionH \<le> 0 then Some eng
            else
              let dx = round64 (mouseX - prevX);
                  dy = round64 (mouseY - prevY)
              in do {
                (tempMapX, tempMapY) \<leftarrow>
                  distortRegion64 tool (strength brushSettings) localRadius mouseX mouseY dx dy
                    mapX mapY w h minX minY regionW regionH;
                (mapX', mapY') \<leftarrow>
                  commitRegion tempMapX tempMapY w minX minY regionW regionH (mapX, mapY);
                Some (eng\<lparr>mapXRef := Some mapX', mapYRef := Some mapY'\<rparr>)
              }
     | _ \<Rightarrow> Some eng)"

section \<open>Vocabulary of the statements\<close>

text \<open>Whether the pixel \<open>(gx, gy)\<close> lies in the bounding box applyDistortion computes for a
  brush of radius \<open>localRadius\<close> centred at \<open>(mouseX, mouseY)\<close> on a \<open>w \<times> h\<close> raster.\<close>

definition inBrushBox :: "real \<Rightarrow> real \<Rightarrow> real \<Rightarrow> int \<Rightarrow> int \<Rightarrow> int \<Rightarrow> int \<Rightarrow> bool" where
  "inBrushBox localRadius mouseX mouseY w h gx gy =
    (max 0 \<lfloor>mouseX - localRadius\<rfloor> \<le> gx \<and> gx < min w \<lceil>mouseX + localRadius\<rceil> \<and>
     max 0 \<lfloor>mouseY - localRadius\<rfloor> \<le> gy \<and> gy < min h \<lceil>mouseY + localRadius\<rceil>)"

text \<open>The same bounding box as applyDistortion computes it in double precision.\<close>

definition inBrushBox64 :: "real \<Rightarrow> real \<Rightarrow> real \<Rightarrow> int \<Rightarrow> int \<Rightarrow> int \<Rightarrow> int \<Rightarrow> bool" where
  "inBrushBox64 localRadius mouseX mouseY w h gx gy =
    (max 0 \<lfloor>round64 (mouseX - localRadius)\<rfloor> \<le> gx \<and>
     gx < min w \<lceil>round64 (mouseX + localRadius)\<rceil> \<and>
     max 0 \<lfloor>round64 (mouseY - localRadius)\<rfloor> \<le> gy \<and>
     gy < min h \<lceil>round64 (mouseY + localRadius)\<rceil>)"

text \<open>The displacement magnitude at the pixel \<open>(gx, gy)\<close> of an engine: the distance between
  the pixel and the source point its map entry holds. It is 0 at every pixel of an identity
  map.\<close>

definition displacementAt :: "engine \<Rightarrow> int \<Rightarrow> int \<Rightarrow> real option" where
  "displacementAt eng gx gy = do {
     mapX \<leftarrow> mapXRef eng;
     mapY \<leftarrow> mapYRef eng;
     original \<leftarrow> activeOriginalDataRef eng;
     vx \<leftarrow> arr_get mapX (gy * int (width original) + gx);
     vy \<leftarrow> arr_get mapY (gy * int (width original) + gx);
     Some (sqrt ((vx - of_int gx) * (vx - of_int gx) + (vy - of_int gy) * (vy - of_int gy)))
   }"

text \<open>The displacement magnitude at the pixel \<open>(gx, gy)\<close> after one stroke.\<close>

definition strokeDisplacement ::
  "ToolType \<Rightarrow> BrushSettings \<Rightarrow> real \<Rightarrow> Layer list \<Rightarrow> string \<Rightarrow> engine
     \<Rightarrow> real \<Rightarrow> real \<Rightarrow> real \<Rightarrow> real \<Rightarrow> int \<Rightarrow> int \<Rightarrow> real option" where
  "strokeDisplacement tool brushSettings zoomLevel layersRef activeId eng mouseX mouseY prevX prevY
       gx gy = do {
     eng' \<leftarrow> applyDistortion tool brushSettings zoomLevel layersRef activeId eng
               mouseX mouseY prevX prevY;
     displacementAt eng' gx gy
   }"

text \<open>The distance of the pixel \<open>(gx, gy)\<close> from the brush centre.\<close>

definition distanceToCentre :: "real \<Rightarrow> real \<Rightarrow> int \<Rightarrow> int \<Rightarrow> real" where
  "distanceToCentre mouseX mouseY gx gy =
     sqrt ((of_int gx - mouseX) * (of_int gx - mouseX) + (of_int gy - mouseY) * (of_int gy - mouseY))"

text \<open>The shape of the history state: at most \<open>HISTORY_MAX_STEPS\<close> snapshots, and an index that
  is \<open>-1\<close> (before the first snapshot) or points at a snapshot; the index is at the tip when it
  points at the last one. Both states App starts from, \<open>([], -1)\<close> and \<open>([initial], 0)\<close>, have
  this shape and are at the tip.\<close>

definition history_ok :: "App \<Rightarrow> bool" where
  "history_ok app =
    (int (length (history app)) \<le> HISTORY_MAX_STEPS \<and> - 1 \<le> historyIndex app \<and>
     historyIndex app < int (length (history app)))"

definition at_tip :: "App \<Rightarrow> bool" where
  "at_tip app = (historyIndex app = int (length (history app)) - 1)"

text \<open>A sequence of commits, each on the state the one before left and each with the index
  its callback closed over; and the sequences in which every commit is made from the current
  render.\<close>

fun commitAll :: "(int \<times> Layer list \<times> string) list \<Rightarrow> App \<Rightarrow> store \<Rightarrow> App \<times> store" where
  "commitAll [] app st = (app, st)"
| "commitAll ((closedIndex, newLayers, newActiveId) # rest) app st =
    (let (app', st') = commitToHistory closedIndex newLayers newActiveId app st
     in commitAll rest app' st')"

fun freshCommits :: "(int \<times> Layer list \<times> string) list \<Rightarrow> App \<Rightarrow> store \<Rightarrow> bool" where
  "freshCommits [] app st = True"
| "freshCommits ((closedIndex, newLayers, newActiveId) # rest) app st =
    (closedIndex = historyIndex app \<and>
     (let (app', st') = commitToHistory closedIndex newLayers newActiveId app st
      in freshCommits rest app' st'))"

text \<open>The pixel buffers a list of layers refers to, and deep equality of two lists of layers,
  each read in its store: as many layers, and layer by layer the same fields, the same
  dimensions and the same pixels, whatever the references are.\<close>

definition layerRefs :: "Layer list \<Rightarrow> ref list" where
  "layerRefs ls = concat (map (\<lambda>l. case imageData l of None \<Rightarrow> [] | Some img \<Rightarrow> [data img]) ls)"

definition pixelsOf :: "store \<Rightarrow> Layer \<Rightarrow> (byte list \<times> nat \<times> nat) option" where
  "pixelsOf st l = map_option (\<lambda>img. (buffers st (data img), width img, height img)) (imageData l)"

definition deepEqual :: "store \<Rightarrow> Layer list \<Rightarrow> store \<Rightarrow> Layer list \<Rightarrow> bool" where
  "deepEqual st ls st' ls' =
    (map (\<lambda>l. (l\<lparr>imageData := None\<rparr>, pixelsOf st l)) ls
       = map (\<lambda>l. (l\<lparr>imageData := None\<rparr>, pixelsOf st' l)) ls')"

text \<open>Concrete inputs on which the theorems are instantiated: a \<open>2 \<times> 2\<close> layer with its
  identity map, and a brush of size 4 (local radius 2 at zoom 1 and scale 1).\<close>

definition example_engine :: engine where
  "example_engine = \<lparr>mapXRef = Some [0, 1, 0, 1], mapYRef = Some [0, 0, 1, 1],
      activeOriginalDataRef = Some \<lparr>data = 0, width = 2, height = 2\<rparr>,
      loadedLayerIdRef = Some ''a''\<rparr>"

definition example_brush :: "real \<Rightarrow> BrushSettings" where
  "example_brush s = \<lparr>brush_size = 4, strength = s, density = 1 / 2\<rparr>"

definition example_image :: ImageData where
  "example_image = \<lparr>data = 0, width = 2, height = 2\<rparr>"

text \<open>A store whose buffer 0 holds four solid red pixels.\<close>

definition example_store :: store where
  "example_store =
    \<lparr>buffers = (\<lambda>r. []) (0 := [255, 0, 0, 255, 255, 0, 0, 255, 255, 0, 0, 255, 255, 0, 0, 255]),
     next_ref = 1\<rparr>"

definition example_layer :: Layer where
  "example_layer =
    \<lparr>layer_id = ''a'', name = ''Image 1'', visible = True, imageData = Some example_image,
     blendMode = SourceOver, opacity = 1, layer_x = 0, layer_y = 0, scale = 1, rotation = 0\<rparr>"

text \<open>A browser whose canvas yields a 2d context and rasterises every lasso path of a
  \<open>2 \<times> 2\<close> canvas to the left column: white inside, black outside.\<close>

definition example_browser :: browser where
  "example_browser =
    \<lparr>context2d = True,
     fillPath = (\<lambda>path w h. [255, 255, 255, 255, 0, 0, 0, 255, 255, 255, 255, 255, 0, 0, 0, 255])\<rparr>"

text \<open>The \<open>4 \<times> 4\<close> layer of the concrete scenario of the specification.\<close>

definition scenario_layer :: Layer where
  "scenario_layer = example_layer\<lparr>imageData := Some \<lparr>data = 0, width = 4, height = 4\<rparr>\<rparr>"

text \<open>The engine of the \<open>2 \<times> 2\<close> example layer after one WARP stroke of strength 1 and radius 1
  from \<open>(1, 0)\<close> to the centre \<open>(0, 0)\<close>: the entry of pixel \<open>(0, 0)\<close> has become \<open>(1, 0)\<close>, the
  other entries are those of the identity map.\<close>

definition warped_engine :: engine where
  "warped_engine = \<lparr>mapXRef = Some [1, 1, 0, 1], mapYRef = Some [0, 0, 1, 1],
      activeOriginalDataRef = Some \<lparr>data = 0, width = 2, height = 2\<rparr>,
      loadedLayerIdRef = Some ''a''\<rparr>"

text \<open>The state of App once its first effect has run: no layers, and a history holding the
  initial snapshot.\<close>

definition example_app :: App where
  "example_app =
    \<lparr>layers = [], activeLayerId = '''',
     history = [\<lparr>layers = [], activeLayerId = ''''\<rparr>], historyIndex = 0\<rparr>"

text \<open>A state of App whose history is full, with the index at the tip.\<close>

definition example_full_app :: App where
  "example_full_app =
    \<lparr>layers = [], activeLayerId = '''',
     history = replicate 20 \<lparr>layers = [], activeLayerId = ''''\<rparr>, historyIndex = 19\<rparr>"

lemma length_arr_set [simp]: "length (arr_set a i v) = length a"
  by (simp add: arr_set_def)

lemma arr_get_Some: "0 \<le> i \<Longrightarrow> i < int (length a) \<Longrightarrow> arr_get a i = Some (a ! nat i)"
  by (simp add: arr_get_def)

lemma nth_arr_set: "k < length a \<Longrightarrow> arr_set a i v ! k = (if i = int k then v else a ! k)"
  by (auto simp: arr_set_def nth_list_update)

lemma for_loop_append:
  "for_loop f (as @ bs) s = (case for_loop f as s of None \<Rightarrow> None | Some s' \<Rightarrow> for_loop f bs s')"
  by (induction as arbitrary: s) (auto split: option.splits)

lemma for_loop_product:
  "for_loop (\<lambda>y. for_loop (g y) xs) ys s = for_loop (\<lambda>(y, x). g y x) (List.product ys xs) s"
proof (induction ys arbitrary: s)
  case Nil
  then show ?case by simp
next
  case (Cons y ys)
  have inner: "for_loop (\<lambda>(y, x). g y x) (map (Pair y) xs) t = for_loop (g y) xs t" for t
    by (induction xs arbitrary: t) (auto split: option.splits)
  show ?case
    by (simp add: for_loop_append inner Cons.IH split: option.splits)
qed

lemma for_loop_establish_gen:
  assumes "distinct js" and "Inv s" and "\<forall>i\<in>D. Q i s" and "D \<inter> set js = {}"
    and step: "\<And>i s. i \<in> set js \<Longrightarrow> Inv s \<Longrightarrow> \<exists>s'. f i s = Some s' \<and> Inv s' \<and> Q i s'"
    and pres: "\<And>i j s s'. i \<in> D \<union> set js \<Longrightarrow> j \<in> set js \<Longrightarrow> i \<noteq> j \<Longrightarrow> Inv s \<Longrightarrow> Q i s
                 \<Longrightarrow> f j s = Some s' \<Longrightarrow> Q i s'"
  shows "\<exists>s'. for_loop f js s = Some s' \<and> Inv s' \<and> (\<forall>i\<in>D \<union> set js. Q i s')"
  using assms
proof (induction js arbitrary: s D)
  case Nil
  then show ?case by simp
next
  case (Cons j js)
  from Cons.prems(5)[of j s] Cons.prems(2)
  obtain s1 where s1: "f j s = Some s1" "Inv s1" "Q j s1" by auto
  have D1: "\<forall>i\<in>insert j D. Q i s1"
  proof
    fix i assume i: "i \<in> insert j D"
    show "Q i s1"
    proof (cases "i = j")
      case True
      then show ?thesis using s1 by simp
    next
      case False
      with i have "i \<in> D" by simp
      with Cons.prems(3) have "Q i s" by blast
      moreover from \<open>i \<in> D\<close> have "i \<in> D \<union> set (j # js)" by simp
      ultimately show ?thesis
        using Cons.prems(6)[of i j s s1] False Cons.prems(2) s1(1) by simp
    qed
  qed
  have "\<exists>s'. for_loop f js s1 = Some s' \<and> Inv s' \<and> (\<forall>i\<in>insert j D \<union> set js. Q i s')"
  proof (rule Cons.IH)
    show "distinct js" using Cons.prems(1) by simp
    show "Inv s1" by (rule s1)
    show "\<forall>i\<in>insert j D. Q i s1" by (rule D1)
    show "insert j D \<inter> set js = {}" using Cons.prems(1,4) by auto
    show "\<exists>s'. f i s = Some s' \<and> Inv s' \<and> Q i s'" if "i \<in> set js" "Inv s" for i s
      using Cons.prems(5)[of i s] that by simp
    show "Q i s'" if "i \<in> insert j D \<union> set js" "k \<in> set js" "i \<noteq> k" "Inv s" "Q i s" "f k s = Some s'"
      for i k s s'
      using Cons.prems(6)[of i k s s'] that by auto
  qed
  then show ?case using s1(1) by auto
qed

lemma for_loop_establish:
  assumes "distinct js" and "Inv s"
    and step: "\<And>i s. i \<in> set js \<Longrightarrow> Inv s \<Longrightarrow> \<exists>s'. f i s = Some s' \<and> Inv s' \<and> Q i s'"
    and pres: "\<And>i j s s'. i \<in> set js \<Longrightarrow> j \<in> set js \<Longrightarrow> i \<noteq> j \<Longrightarrow> Inv s \<Longrightarrow> Q i s
                 \<Longrightarrow> f j s = Some s' \<Longrightarrow> Q i s'"
  shows "\<exists>s'. for_loop f js s = Some s' \<and> Inv s' \<and> (\<forall>i\<in>set js. Q i s')"
proof -
  have "\<exists>s'. for_loop f js s = Some s' \<and> Inv s' \<and> (\<forall>i\<in>{} \<union> set js. Q i s')"
  proof (rule for_loop_establish_gen[where Inv = Inv and Q = Q])
    show "distinct js" by fact
    show "Inv s" by fact
    show "\<forall>i\<in>{}. Q i s" by simp
    show "{} \<inter> set js = {}" by simp
    show "\<exists>s'. f i s = Some s' \<and> Inv s' \<and> Q i s'" if "i \<in> set js" "Inv s" for i s
      using step that by blast
    show "Q i s'" if "i \<in> {} \<union> set js" "j \<in> set js" "i \<noteq> j" "Inv s" "Q i s" "f j s = Some s'"
      for i j s s'
      using pres[of i j s s'] that by simp
  qed
  then show ?thesis by simp
qed

lemma idx_bound:
  fixes x y w h :: int
  assumes "0 \<le> x" "x < w" "0 \<le> y" "y < h"
  shows "0 \<le> y * w + x" and "y * w + x < w * h"
proof -
  show "0 \<le> y * w + x" using assms by simp
  have "y * w + x < y * w + w" using assms by simp
  also have "\<dots> = (y + 1) * w" by (simp add: algebra_simps)
  also have "\<dots> \<le> h * w" using assms by (intro mult_right_mono) auto
  finally show "y * w + x < w * h" by (simp add: mult.commute)
qed

lemma idx_inj:
  fixes x y x' y' w :: int
  assumes "0 \<le> x" "x < w" "0 \<le> x'" "x' < w" "y * w + x = y' * w + x'"
  shows "x = x' \<and> y = y'"
proof -
  have "x = (y * w + x) mod w" using assms(1,2) by simp
  also have "\<dots> = (y' * w + x') mod w" by (simp only: assms(5))
  also have "\<dots> = x'" using assms(3,4) by simp
  finally have x: "x = x'" .
  have "y = (y * w + x) div w" using assms(1,2) by simp
  also have "\<dots> = (y' * w + x') div w" by (simp only: assms(5))
  also have "\<dots> = y'" using assms(3,4) by simp
  finally have "y = y'" .
  with x show ?thesis by simp
qed

lemma clamp_range:
  fixes w x :: int
  assumes "0 < w"
  shows "0 \<le> max 0 (min (w - 1) x)" and "max 0 (min (w - 1) x) < w"
  using assms by auto

lemma arr_get_clamped:
  assumes "0 < w" "0 < h" "length arr = nat (w * h)"
  shows "arr_get arr (max 0 (min (h - 1) y) * w + max 0 (min (w - 1) x))
           = Some (arr ! nat (max 0 (min (h - 1) y) * w + max 0 (min (w - 1) x)))"
proof (rule arr_get_Some)
  let ?sx = "max 0 (min (w - 1) x)" and ?sy = "max 0 (min (h - 1) y)"
  have b: "0 \<le> ?sy * w + ?sx" "?sy * w + ?sx < w * h"
    using idx_bound[of ?sx w ?sy h] clamp_range[OF assms(1), of x] clamp_range[OF assms(2), of y]
    by blast+
  show "0 \<le> ?sy * w + ?sx" by (rule b)
  show "?sy * w + ?sx < int (length arr)" using b(2) assms by simp
qed

lemma sample_Some:
  assumes "0 < w" "0 < h" "length arr = nat (w * h)"
  shows "sample arr w h u v =
     Some (arr ! nat (max 0 (min (h - 1) \<lfloor>v\<rfloor>) * w + max 0 (min (w - 1) \<lfloor>u\<rfloor>))
             * (1 - (u - of_int \<lfloor>u\<rfloor>)) * (1 - (v - of_int \<lfloor>v\<rfloor>))
         + arr ! nat (max 0 (min (h - 1) \<lfloor>v\<rfloor>) * w + max 0 (min (w - 1) (\<lfloor>u\<rfloor> + 1)))
             * (u - of_int \<lfloor>u\<rfloor>) * (1 - (v - of_int \<lfloor>v\<rfloor>))
         + arr ! nat (max 0 (min (h - 1) (\<lfloor>v\<rfloor> + 1)) * w + max 0 (min (w - 1) \<lfloor>u\<rfloor>))
             * (1 - (u - of_int \<lfloor>u\<rfloor>)) * (v - of_int \<lfloor>v\<rfloor>)
         + arr ! nat (max 0 (min (h - 1) (\<lfloor>v\<rfloor> + 1)) * w + max 0 (min (w - 1) (\<lfloor>u\<rfloor> + 1)))
             * (u - of_int \<lfloor>u\<rfloor>) * (v - of_int \<lfloor>v\<rfloor>))"
  unfolding sample_def Let_def
  by (simp only: arr_get_clamped[OF assms] bind.bind_lunit)

lemma sample_at_pixel:
  assumes "0 \<le> gx" "gx < w" "0 \<le> gy" "gy < h" "length arr = nat (w * h)"
  shows "sample arr w h (of_int gx) (of_int gy) = Some (arr ! nat (gy * w + gx))"
proof -
  have w: "0 < w" and h: "0 < h" using assms by auto
  have cx: "max 0 (min (w - 1) gx) = gx" and cy: "max 0 (min (h - 1) gy) = gy"
    using assms by auto
  show ?thesis
    by (simp add: sample_Some[OF w h assms(5)] cx cy)
qed

lemma pixel_idx_bound:
  fixes x y w h c :: int
  assumes "0 \<le> x" "x < w" "0 \<le> y" "y < h" "0 \<le> c" "c < 4"
  shows "0 \<le> (y * w + x) * 4 + c" and "(y * w + x) * 4 + c < 4 * w * h"
proof -
  have b: "0 \<le> y * w + x" "y * w + x < w * h" using idx_bound[OF assms(1-4)] by blast+
  show "0 \<le> (y * w + x) * 4 + c" using b(1) assms(5) by simp
  have "(y * w + x) * 4 + c < (y * w + x + 1) * 4" using assms(6) by simp
  also have "\<dots> \<le> (w * h) * 4" using b(2) by simp
  finally show "(y * w + x) * 4 + c < 4 * w * h" by simp
qed

lemma pixel_get_clamped:
  assumes "0 < w" "0 < h" "length px = nat (4 * w * h)" "0 \<le> c" "c < 4"
  shows "arr_get px ((max 0 (min (h - 1) y) * w + max 0 (min (w - 1) x)) * 4 + c)
           = Some (px ! nat ((max 0 (min (h - 1) y) * w + max 0 (min (w - 1) x)) * 4 + c))"
proof (rule arr_get_Some)
  let ?sx = "max 0 (min (w - 1) x)" and ?sy = "max 0 (min (h - 1) y)"
  have b: "0 \<le> (?sy * w + ?sx) * 4 + c" "(?sy * w + ?sx) * 4 + c < 4 * w * h"
    using pixel_idx_bound[of ?sx w ?sy h c] clamp_range[OF assms(1), of x]
      clamp_range[OF assms(2), of y] assms(4,5)
    by blast+
  show "0 \<le> (?sy * w + ?sx) * 4 + c" by (rule b)
  show "(?sy * w + ?sx) * 4 + c < int (length px)" using b(2) assms by simp
qed

lemma resampleChannel_Some:
  assumes "0 < w" "0 < h" "length px = nat (4 * w * h)" "0 \<le> c" "c < 4"
  shows "resampleChannel px w h u v c =
     Some (real (unat (px ! nat ((max 0 (min (h - 1) \<lfloor>v\<rfloor>) * w + max 0 (min (w - 1) \<lfloor>u\<rfloor>)) * 4 + c)))
             * (1 - (u - of_int \<lfloor>u\<rfloor>)) * (1 - (v - of_int \<lfloor>v\<rfloor>))
         + real (unat (px ! nat ((max 0 (min (h - 1) \<lfloor>v\<rfloor>) * w + max 0 (min (w - 1) (\<lfloor>u\<rfloor> + 1))) * 4 + c)))
             * (u - of_int \<lfloor>u\<rfloor>) * (1 - (v - of_int \<lfloor>v\<rfloor>))
         + real (unat (px ! nat ((max 0 (min (h - 1) (\<lfloor>v\<rfloor> + 1)) * w + max 0 (min (w - 1) \<lfloor>u\<rfloor>)) * 4 + c)))
             * (1 - (u - of_int \<lfloor>u\<rfloor>)) * (v - of_int \<lfloor>v\<rfloor>)
         + real (unat (px ! nat ((max 0 (min (h - 1) (\<lfloor>v\<rfloor> + 1)) * w + max 0 (min (w - 1) (\<lfloor>u\<rfloor> + 1))) * 4 + c)))
             * (u - of_int \<lfloor>u\<rfloor>) * (v - of_int \<lfloor>v\<rfloor>))"
  unfolding resampleChannel_def Let_def
  by (simp only: pixel_get_clamped[OF assms] bind.bind_lunit)

lemma resampleChannel_at_pixel:
  assumes "0 \<le> gx" "gx < w" "0 \<le> gy" "gy < h" "length px = nat (4 * w * h)" "0 \<le> c" "c < 4"
  shows "resampleChannel px w h (of_int gx) (of_int gy) c
           = Some (real (unat (px ! nat ((gy * w + gx) * 4 + c))))"
proof -
  have w: "0 < w" and h: "0 < h" using assms by auto
  have cx: "max 0 (min (w - 1) gx) = gx" and cy: "max 0 (min (h - 1) gy) = gy"
    using assms by auto
  show ?thesis
    by (simp add: resampleChannel_Some[OF w h assms(5,6,7)] cx cy)
qed

lemma toUint8Clamp_byte: "toUint8Clamp (real (unat (b :: byte))) = b"
proof -
  define n where "n = unat b"
  have lt: "n < 256" unfolding n_def using unsigned_less[of b] by simp
  have m: "min (max (real n) 0) 255 = real n" using lt by (simp add: min_def max_def)
  have f: "\<lfloor>real n\<rfloor> = int n" by simp
  have "toUint8Clamp (real n) = word_of_int (int n)"
    unfolding toUint8Clamp_def Let_def m f by simp
  also have "\<dots> = b" unfolding n_def by simp
  finally show ?thesis unfolding n_def .
qed

lemma distortCell_inside:
  assumes "0 < w" "0 < h" "length mapX = nat (w * h)" "length mapY = nat (w * h)"
    and "(of_int gx - mouseX) * (of_int gx - mouseX) + (of_int gy - mouseY) * (of_int gy - mouseY)
           < localRadius * localRadius"
  shows "\<exists>vx vy. distortCell tool s localRadius mouseX mouseY dx dy mapX mapY w h gx gy = Some (vx, vy)
     \<and> sample mapX w h
          (fst (sourceLookup tool mouseX mouseY dx dy
             (brushPower localRadius s ((of_int gx - mouseX) * (of_int gx - mouseX)
                + (of_int gy - mouseY) * (of_int gy - mouseY))) gx gy))
          (snd (sourceLookup tool mouseX mouseY dx dy
             (brushPower localRadius s ((of_int gx - mouseX) * (of_int gx - mouseX)
                + (of_int gy - mouseY) * (of_int gy - mouseY))) gx gy)) = Some vx
     \<and> sample mapY w h
          (fst (sourceLookup tool mouseX mouseY dx dy
             (brushPower localRadius s ((of_int gx - mouseX) * (of_int gx - mouseX)
                + (of_int gy - mouseY) * (of_int gy - mouseY))) gx gy))
          (snd (sourceLookup tool mouseX mouseY dx dy
             (brushPower localRadius s ((of_int gx - mouseX) * (of_int gx - mouseX)
                + (of_int gy - mouseY) * (of_int gy - mouseY))) gx gy)) = Some vy"
proof -
  obtain vx where vx: "sample mapX w h
          (fst (sourceLookup tool mouseX mouseY dx dy
             (brushPower localRadius s ((of_int gx - mouseX) * (of_int gx - mouseX)
                + (of_int gy - mouseY) * (of_int gy - mouseY))) gx gy))
          (snd (sourceLookup tool mouseX mouseY dx dy
             (brushPower localRadius s ((of_int gx - mouseX) * (of_int gx - mouseX)
                + (of_int gy - mouseY) * (of_int gy - mouseY))) gx gy)) = Some vx"
    using sample_Some[OF assms(1,2,3)] by blast
  obtain vy where vy: "sample mapY w h
          (fst (sourceLookup tool mouseX mouseY dx dy
             (brushPower localRadius s ((of_int gx - mouseX) * (of_int gx - mouseX)
                + (of_int gy - mouseY) * (of_int gy - mouseY))) gx gy))
          (snd (sourceLookup tool mouseX mouseY dx dy
             (brushPower localRadius s ((of_int gx - mouseX) * (of_int gx - mouseX)
                + (of_int gy - mouseY) * (of_int gy - mouseY))) gx gy)) = Some vy"
    using sample_Some[OF assms(1,2,4)] by blast
  have "distortCell tool s localRadius mouseX mouseY dx dy mapX mapY w h gx gy = Some (vx, vy)"
    unfolding distortCell_def Let_def using assms(5) vx vy
    by (simp add: split_def)
  then show ?thesis using vx vy by blast
qed

lemma distortCell_outside:
  assumes "0 \<le> gx" "gx < w" "0 \<le> gy" "gy < h"
    and "length mapX = nat (w * h)" "length mapY = nat (w * h)"
    and "\<not> (of_int gx - mouseX) * (of_int gx - mouseX) + (of_int gy - mouseY) * (of_int gy - mouseY)
           < localRadius * localRadius"
  shows "distortCell tool s localRadius mouseX mouseY dx dy mapX mapY w h gx gy
           = Some (mapX ! nat (gy * w + gx), mapY ! nat (gy * w + gx))"
proof -
  have b: "0 \<le> gy * w + gx" "gy * w + gx < w * h" using idx_bound[OF assms(1-4)] by blast+
  have gx: "arr_get mapX (gy * w + gx) = Some (mapX ! nat (gy * w + gx))"
    using b assms(5) by (intro arr_get_Some) simp_all
  have gy: "arr_get mapY (gy * w + gx) = Some (mapY ! nat (gy * w + gx))"
    using b assms(6) by (intro arr_get_Some) simp_all
  show ?thesis
    unfolding distortCell_def Let_def using assms(7) gx gy by simp
qed

lemma distortCell_Some:
  assumes "0 \<le> gx" "gx < w" "0 \<le> gy" "gy < h"
    and "length mapX = nat (w * h)" "length mapY = nat (w * h)"
  shows "\<exists>v. distortCell tool s localRadius mouseX mouseY dx dy mapX mapY w h gx gy = Some v"
proof (cases "(of_int gx - mouseX) * (of_int gx - mouseX) + (of_int gy - mouseY) * (of_int gy - mouseY)
           < localRadius * localRadius")
  case True
  have "0 < w" "0 < h" using assms by auto
  from distortCell_inside[OF this assms(5,6) True] show ?thesis by blast
next
  case False
  from distortCell_outside[OF assms False] show ?thesis by blast
qed

lemma cells_distinct: "distinct (List.product [0..a] [0..b])"
  by (simp add: distinct_product)

lemma cells_set: "(y, x) \<in> set (List.product [0..a] [0..b]) \<longleftrightarrow> 0 \<le> y \<and> y \<le> a \<and> 0 \<le> x \<and> x \<le> b"
  by auto

lemma distortRegion_spec:
  assumes rw: "0 < regionW" and rh: "0 < regionH"
    and ok: "\<And>x y. 0 \<le> x \<Longrightarrow> x < regionW \<Longrightarrow> 0 \<le> y \<Longrightarrow> y < regionH \<Longrightarrow>
               \<exists>v. distortCell tool s localRadius mouseX mouseY dx dy mapX mapY w h (minX + x) (minY + y) = Some v"
  shows "\<exists>tX tY. distortRegion tool s localRadius mouseX mouseY dx dy mapX mapY w h
                     minX minY regionW regionH = Some (tX, tY)
           \<and> length tX = nat (regionW * regionH) \<and> length tY = nat (regionW * regionH)
           \<and> (\<forall>x y. 0 \<le> x \<longrightarrow> x < regionW \<longrightarrow> 0 \<le> y \<longrightarrow> y < regionH \<longrightarrow>
                 distortCell tool s localRadius mouseX mouseY dx dy mapX mapY w h (minX + x) (minY + y)
                   = Some (tX ! nat (y * regionW + x), tY ! nat (y * regionW + x)))"
proof -
  let ?n = "nat (regionW * regionH)"
  let ?D = "\<lambda>x y. distortCell tool s localRadius mouseX mouseY dx dy mapX mapY w h (minX + x) (minY + y)"
  let ?Inv = "\<lambda>t :: real list \<times> real list. length (fst t) = ?n \<and> length (snd t) = ?n"
  let ?Q = "\<lambda>(y, x) (t :: real list \<times> real list).
               ?D x y = Some (fst t ! nat (y * regionW + x), snd t ! nat (y * regionW + x))"
  have pos: "0 < regionW * regionH" using rw rh by simp
  have inrange: "0 \<le> y * regionW + x \<and> y * regionW + x < regionW * regionH"
    if "0 \<le> x" "x < regionW" "0 \<le> y" "y < regionH" for x y
    using idx_bound[OF that] by simp
  have "\<exists>t. distortRegion tool s localRadius mouseX mouseY dx dy mapX mapY w h
                     minX minY regionW regionH = Some t
          \<and> ?Inv t \<and> (\<forall>c\<in>set (List.product [0..regionH - 1] [0..regionW - 1]). ?Q c t)"
    unfolding distortRegion_def for_loop_product
  proof (rule for_loop_establish[where Inv = ?Inv and Q = ?Q])
    show "distinct (List.product [0..regionH - 1] [0..regionW - 1])" by (rule cells_distinct)
    show "?Inv (replicate ?n 0, replicate ?n 0)" by simp
  next
    fix c :: "int \<times> int" and t :: "real list \<times> real list"
    assume c: "c \<in> set (List.product [0..regionH - 1] [0..regionW - 1])" and inv: "?Inv t"
    obtain y x where cx: "c = (y, x)" by (cases c)
    obtain tX tY where tt: "t = (tX, tY)" by (cases t)
    have r: "0 \<le> x" "x < regionW" "0 \<le> y" "y < regionH" using c cx by auto
    from ok[OF r] obtain vx vy where v: "?D x y = Some (vx, vy)" by auto
    have ir: "0 \<le> y * regionW + x" "y * regionW + x < regionW * regionH"
      using inrange[OF r] by auto
    have lt: "nat (y * regionW + x) < length tX" "nat (y * regionW + x) < length tY"
      using ir pos inv tt by (simp_all add: zless_nat_conj)
    have ir': "y * regionW + x < int (length tX)" "y * regionW + x < int (length tY)"
      using ir pos inv tt by simp_all
    show "\<exists>t'. (case c of (y, x) \<Rightarrow> \<lambda>(tempMapX, tempMapY).
              distortCell tool s localRadius mouseX mouseY dx dy mapX mapY w h (minX + x) (minY + y)
              \<bind> (\<lambda>(vx, vy). Some (arr_set tempMapX (y * regionW + x) vx,
                                       arr_set tempMapY (y * regionW + x) vy))) t = Some t'
            \<and> ?Inv t' \<and> ?Q c t'"
      using v inv lt ir ir' by (simp add: cx tt nth_arr_set)
  next
    fix c c' :: "int \<times> int" and t t' :: "real list \<times> real list"
    assume c: "c \<in> set (List.product [0..regionH - 1] [0..regionW - 1])"
      and c': "c' \<in> set (List.product [0..regionH - 1] [0..regionW - 1])"
      and ne: "c \<noteq> c'" and inv: "?Inv t" and q: "?Q c t"
      and step: "(case c' of (y, x) \<Rightarrow> \<lambda>(tempMapX, tempMapY).
              distortCell tool s localRadius mouseX mouseY dx dy mapX mapY w h (minX + x) (minY + y)
              \<bind> (\<lambda>(vx, vy). Some (arr_set tempMapX (y * regionW + x) vx,
                                       arr_set tempMapY (y * regionW + x) vy))) t = Some t'"
    obtain y x where cx: "c = (y, x)" by (cases c)
    obtain y' x' where cx': "c' = (y', x')" by (cases c')
    obtain tX tY where tt: "t = (tX, tY)" by (cases t)
    have r: "0 \<le> x" "x < regionW" "0 \<le> y" "y < regionH" using c cx by auto
    have r': "0 \<le> x'" "x' < regionW" "0 \<le> y'" "y' < regionH" using c' cx' by auto
    from ok[OF r'] obtain vx vy where v: "?D x' y' = Some (vx, vy)" by auto
    have t': "t' = (arr_set tX (y' * regionW + x') vx, arr_set tY (y' * regionW + x') vy)"
      using step v by (simp add: cx' tt)
    have ir: "0 \<le> y * regionW + x" "y * regionW + x < regionW * regionH"
      using inrange[OF r] by auto
    have lt: "nat (y * regionW + x) < length tX" "nat (y * regionW + x) < length tY"
      using ir pos inv tt by (simp_all add: zless_nat_conj)
    have ir': "y * regionW + x < int (length tX)" "y * regionW + x < int (length tY)"
      using ir pos inv tt by simp_all
    have neq: "y' * regionW + x' \<noteq> int (nat (y * regionW + x))"
    proof
      assume "y' * regionW + x' = int (nat (y * regionW + x))"
      then have "y' * regionW + x' = y * regionW + x" using ir by simp
      from idx_inj[OF r'(1,2) r(1,2) this] show False using ne cx cx' by simp
    qed
    show "?Q c t'"
      using q lt neq by (simp add: cx tt t' nth_arr_set)
  qed
  then obtain t where t: "distortRegion tool s localRadius mouseX mouseY dx dy mapX mapY w h
                     minX minY regionW regionH = Some t" "?Inv t"
      "\<forall>c\<in>set (List.product [0..regionH - 1] [0..regionW - 1]). ?Q c t"
    by blast
  have "?D x y = Some (fst t ! nat (y * regionW + x), snd t ! nat (y * regionW + x))"
    if "0 \<le> x" "x < regionW" "0 \<le> y" "y < regionH" for x y
  proof -
    have "(y, x) \<in> set (List.product [0..regionH - 1] [0..regionW - 1])" using that by auto
    with t(3) have "?Q (y, x) t" by blast
    then show ?thesis by simp
  qed
  with t(1,2) show ?thesis by (cases t) auto
qed

lemma commitRegion_spec:
  assumes rw: "0 < regionW" and rh: "0 < regionH" and mn: "0 \<le> minX" "0 \<le> minY"
    and mx: "minX + regionW \<le> w" "minY + regionH \<le> h"
    and lt: "length tX = nat (regionW * regionH)" "length tY = nat (regionW * regionH)"
    and lm: "length mapX = nat (w * h)" "length mapY = nat (w * h)"
  shows "\<exists>mX mY. commitRegion tX tY w minX minY regionW regionH (mapX, mapY) = Some (mX, mY)
           \<and> length mX = length mapX \<and> length mY = length mapY
           \<and> (\<forall>x y. 0 \<le> x \<longrightarrow> x < regionW \<longrightarrow> 0 \<le> y \<longrightarrow> y < regionH \<longrightarrow>
                 mX ! nat ((minY + y) * w + (minX + x)) = tX ! nat (y * regionW + x)
               \<and> mY ! nat ((minY + y) * w + (minX + x)) = tY ! nat (y * regionW + x))
           \<and> (\<forall>gx gy. 0 \<le> gx \<longrightarrow> gx < w \<longrightarrow> 0 \<le> gy \<longrightarrow> gy < h \<longrightarrow>
                 \<not> (minX \<le> gx \<and> gx < minX + regionW \<and> minY \<le> gy \<and> gy < minY + regionH) \<longrightarrow>
                 mX ! nat (gy * w + gx) = mapX ! nat (gy * w + gx)
               \<and> mY ! nat (gy * w + gx) = mapY ! nat (gy * w + gx))"
proof -
  let ?n = "nat (w * h)"
  let ?frame = "\<lambda>m :: real list \<times> real list.
        \<forall>gx gy. 0 \<le> gx \<longrightarrow> gx < w \<longrightarrow> 0 \<le> gy \<longrightarrow> gy < h \<longrightarrow>
                 \<not> (minX \<le> gx \<and> gx < minX + regionW \<and> minY \<le> gy \<and> gy < minY + regionH) \<longrightarrow>
                 fst m ! nat (gy * w + gx) = mapX ! nat (gy * w + gx)
               \<and> snd m ! nat (gy * w + gx) = mapY ! nat (gy * w + gx)"
  let ?Inv = "\<lambda>m :: real list \<times> real list. length (fst m) = ?n \<and> length (snd m) = ?n \<and> ?frame m"
  let ?Q = "\<lambda>(y, x) (m :: real list \<times> real list).
               fst m ! nat ((minY + y) * w + (minX + x)) = tX ! nat (y * regionW + x)
             \<and> snd m ! nat ((minY + y) * w + (minX + x)) = tY ! nat (y * regionW + x)"
  have wpos: "0 < w" and hpos: "0 < h" using rw rh mn mx by auto
  have pos: "0 < regionW * regionH" using rw rh by simp
  have mpos: "0 < w * h" using wpos hpos by simp
  have tget: "arr_get tX (y * regionW + x) = Some (tX ! nat (y * regionW + x))
            \<and> arr_get tY (y * regionW + x) = Some (tY ! nat (y * regionW + x))"
    if "0 \<le> x" "x < regionW" "0 \<le> y" "y < regionH" for x y
    using idx_bound[OF that] lt pos by (simp add: arr_get_def)
  have grange: "0 \<le> gy * w + gx \<and> gy * w + gx < w * h \<and> nat (gy * w + gx) < ?n"
    if "0 \<le> gx" "gx < w" "0 \<le> gy" "gy < h" for gx gy
    using idx_bound[OF that] mpos by (simp add: zless_nat_conj)
  have "\<exists>m. commitRegion tX tY w minX minY regionW regionH (mapX, mapY) = Some m
          \<and> ?Inv m \<and> (\<forall>c\<in>set (List.product [0..regionH - 1] [0..regionW - 1]). ?Q c m)"
    unfolding commitRegion_def for_loop_product
  proof (rule for_loop_establish[where Inv = ?Inv and Q = ?Q])
    show "distinct (List.product [0..regionH - 1] [0..regionW - 1])" by (rule cells_distinct)
    show "?Inv (mapX, mapY)" using lm by simp
  next
    fix c :: "int \<times> int" and m :: "real list \<times> real list"
    assume c: "c \<in> set (List.product [0..regionH - 1] [0..regionW - 1])" and inv: "?Inv m"
    obtain y x where cx: "c = (y, x)" by (cases c)
    obtain mX mY where mm: "m = (mX, mY)" by (cases m)
    have r: "0 \<le> x" "x < regionW" "0 \<le> y" "y < regionH" using c cx by auto
    have g: "0 \<le> minX + x" "minX + x < w" "0 \<le> minY + y" "minY + y < h" using r mn mx by auto
    note gr = grange[OF g]
    have len: "length mX = ?n" "length mY = ?n" using inv mm by auto
    have fr: "?frame (arr_set mX ((minY + y) * w + (minX + x)) (tX ! nat (y * regionW + x)),
                      arr_set mY ((minY + y) * w + (minX + x)) (tY ! nat (y * regionW + x)))"
    proof (intro allI impI)
      fix gx gy assume a: "0 \<le> gx" "gx < w" "0 \<le> gy" "gy < h"
        and nb: "\<not> (minX \<le> gx \<and> gx < minX + regionW \<and> minY \<le> gy \<and> gy < minY + regionH)"
      note gr' = grange[OF a]
      have ne: "(minY + y) * w + (minX + x) \<noteq> int (nat (gy * w + gx))"
      proof
        assume "(minY + y) * w + (minX + x) = int (nat (gy * w + gx))"
        then have "(minY + y) * w + (minX + x) = gy * w + gx" using gr' by simp
        from idx_inj[OF g(1,2) a(1,2) this] show False using nb r by auto
      qed
      have old: "mX ! nat (gy * w + gx) = mapX ! nat (gy * w + gx)
               \<and> mY ! nat (gy * w + gx) = mapY ! nat (gy * w + gx)"
        using inv mm a nb by simp
      show "fst (arr_set mX ((minY + y) * w + (minX + x)) (tX ! nat (y * regionW + x)),
                 arr_set mY ((minY + y) * w + (minX + x)) (tY ! nat (y * regionW + x)))
              ! nat (gy * w + gx) = mapX ! nat (gy * w + gx)
          \<and> snd (arr_set mX ((minY + y) * w + (minX + x)) (tX ! nat (y * regionW + x)),
                 arr_set mY ((minY + y) * w + (minX + x)) (tY ! nat (y * regionW + x)))
              ! nat (gy * w + gx) = mapY ! nat (gy * w + gx)"
        using gr' len ne old by (simp add: nth_arr_set)
    qed
    have ir: "(minY + y) * w + (minX + x) < int (length mX)"
             "(minY + y) * w + (minX + x) < int (length mY)"
      using gr len mpos by simp_all
    show "\<exists>m'. (case c of (y, x) \<Rightarrow> \<lambda>(mapX, mapY).
               let idx = (minY + y) * w + (minX + x)
               in arr_get tX (y * regionW + x) \<bind> (\<lambda>vx. arr_get tY (y * regionW + x)
                    \<bind> (\<lambda>vy. Some (arr_set mapX idx vx, arr_set mapY idx vy)))) m = Some m'
            \<and> ?Inv m' \<and> ?Q c m'"
    proof (intro exI conjI)
      show "(case c of (y, x) \<Rightarrow> \<lambda>(mapX, mapY).
               let idx = (minY + y) * w + (minX + x)
               in arr_get tX (y * regionW + x) \<bind> (\<lambda>vx. arr_get tY (y * regionW + x)
                    \<bind> (\<lambda>vy. Some (arr_set mapX idx vx, arr_set mapY idx vy)))) m
            = Some (arr_set mX ((minY + y) * w + (minX + x)) (tX ! nat (y * regionW + x)),
                    arr_set mY ((minY + y) * w + (minX + x)) (tY ! nat (y * regionW + x)))"
        using tget[OF r] by (simp add: cx mm Let_def)
      show "length (fst (arr_set mX ((minY + y) * w + (minX + x)) (tX ! nat (y * regionW + x)),
                    arr_set mY ((minY + y) * w + (minX + x)) (tY ! nat (y * regionW + x)))) = ?n"
        using len by simp
      show "length (snd (arr_set mX ((minY + y) * w + (minX + x)) (tX ! nat (y * regionW + x)),
                    arr_set mY ((minY + y) * w + (minX + x)) (tY ! nat (y * regionW + x)))) = ?n"
        using len by simp
      show "?frame (arr_set mX ((minY + y) * w + (minX + x)) (tX ! nat (y * regionW + x)),
                    arr_set mY ((minY + y) * w + (minX + x)) (tY ! nat (y * regionW + x)))"
        by (rule fr)
      show "?Q c (arr_set mX ((minY + y) * w + (minX + x)) (tX ! nat (y * regionW + x)),
                    arr_set mY ((minY + y) * w + (minX + x)) (tY ! nat (y * regionW + x)))"
        using gr len ir by (simp add: cx nth_arr_set)
    qed
  next
    fix c c' :: "int \<times> int" and m m' :: "real list \<times> real list"
    assume c: "c \<in> set (List.product [0..regionH - 1] [0..regionW - 1])"
      and c': "c' \<in> set (List.product [0..regionH - 1] [0..regionW - 1])"
      and ne: "c \<noteq> c'" and inv: "?Inv m" and q: "?Q c m"
      and step: "(case c' of (y, x) \<Rightarrow> \<lambda>(mapX, mapY).
               let idx = (minY + y) * w + (minX + x)
               in arr_get tX (y * regionW + x) \<bind> (\<lambda>vx. arr_get tY (y * regionW + x)
                    \<bind> (\<lambda>vy. Some (arr_set mapX idx vx, arr_set mapY idx vy)))) m = Some m'"
    obtain y x where cx: "c = (y, x)" by (cases c)
    obtain y' x' where cx': "c' = (y', x')" by (cases c')
    obtain mX mY where mm: "m = (mX, mY)" by (cases m)
    have r: "0 \<le> x" "x < regionW" "0 \<le> y" "y < regionH" using c cx by auto
    have r': "0 \<le> x'" "x' < regionW" "0 \<le> y'" "y' < regionH" using c' cx' by auto
    have g: "0 \<le> minX + x" "minX + x < w" "0 \<le> minY + y" "minY + y < h" using r mn mx by auto
    have g': "0 \<le> minX + x'" "minX + x' < w" "0 \<le> minY + y'" "minY + y' < h"
      using r' mn mx by auto
    note gr = grange[OF g]
    have len: "length mX = ?n" "length mY = ?n" using inv mm by auto
    have m': "m' = (arr_set mX ((minY + y') * w + (minX + x')) (tX ! nat (y' * regionW + x')),
                    arr_set mY ((minY + y') * w + (minX + x')) (tY ! nat (y' * regionW + x')))"
      using step tget[OF r'] by (simp add: cx' mm Let_def)
    have neq: "(minY + y') * w + (minX + x') \<noteq> int (nat ((minY + y) * w + (minX + x)))"
    proof
      assume "(minY + y') * w + (minX + x') = int (nat ((minY + y) * w + (minX + x)))"
      then have "(minY + y') * w + (minX + x') = (minY + y) * w + (minX + x)" using gr by simp
      from idx_inj[OF g'(1,2) g(1,2) this] show False using ne cx cx' by simp
    qed
    show "?Q c m'"
      using q gr len neq by (simp add: cx mm m' nth_arr_set)
  qed
  then obtain m where m: "commitRegion tX tY w minX minY regionW regionH (mapX, mapY) = Some m"
      "?Inv m" "\<forall>c\<in>set (List.product [0..regionH - 1] [0..regionW - 1]). ?Q c m"
    by blast
  have cells: "fst m ! nat ((minY + y) * w + (minX + x)) = tX ! nat (y * regionW + x)
             \<and> snd m ! nat ((minY + y) * w + (minX + x)) = tY ! nat (y * regionW + x)"
    if "0 \<le> x" "x < regionW" "0 \<le> y" "y < regionH" for x y
  proof -
    have "(y, x) \<in> set (List.product [0..regionH - 1] [0..regionW - 1])" using that by auto
    with m(3) have "?Q (y, x) m" by blast
    then show ?thesis by simp
  qed
  obtain mX mY where mm: "m = (mX, mY)" by (cases m)
  show ?thesis
  proof (intro exI conjI)
    show "commitRegion tX tY w minX minY regionW regionH (mapX, mapY) = Some (mX, mY)"
      using m(1) mm by simp
    show "length mX = length mapX" "length mY = length mapY" using m(2) mm lm by simp_all
    show "\<forall>x y. 0 \<le> x \<longrightarrow> x < regionW \<longrightarrow> 0 \<le> y \<longrightarrow> y < regionH \<longrightarrow>
                 mX ! nat ((minY + y) * w + (minX + x)) = tX ! nat (y * regionW + x)
               \<and> mY ! nat ((minY + y) * w + (minX + x)) = tY ! nat (y * regionW + x)"
      using cells mm by simp
    show "\<forall>gx gy. 0 \<le> gx \<longrightarrow> gx < w \<longrightarrow> 0 \<le> gy \<longrightarrow> gy < h \<longrightarrow>
                 \<not> (minX \<le> gx \<and> gx < minX + regionW \<and> minY \<le> gy \<and> gy < minY + regionH) \<longrightarrow>
                 mX ! nat (gy * w + gx) = mapX ! nat (gy * w + gx)
               \<and> mY ! nat (gy * w + gx) = mapY ! nat (gy * w + gx)"
      using m(2) mm by simp
  qed
qed

lemma applyDistortion_cells:
  assumes e: "mapXRef eng = Some mapX" "mapYRef eng = Some mapY"
      "activeOriginalDataRef eng = Some original"
    and l: "length mapX = width original * height original"
      "length mapY = width original * height original"
  shows "\<exists>mapX' mapY'.
      applyDistortion tool bs zoom ls aid eng mouseX mouseY prevX prevY
        = Some (eng\<lparr>mapXRef := Some mapX', mapYRef := Some mapY'\<rparr>)
    \<and> length mapX' = length mapX \<and> length mapY' = length mapY
    \<and> (\<forall>gx gy. 0 \<le> gx \<longrightarrow> gx < int (width original) \<longrightarrow> 0 \<le> gy \<longrightarrow> gy < int (height original) \<longrightarrow>
         (if inBrushBox (localRadiusOf bs zoom ls aid) mouseX mouseY
               (int (width original)) (int (height original)) gx gy
          then distortCell tool (strength bs) (localRadiusOf bs zoom ls aid) mouseX mouseY
                 (mouseX - prevX) (mouseY - prevY) mapX mapY
                 (int (width original)) (int (height original)) gx gy
                 = Some (mapX' ! nat (gy * int (width original) + gx),
                         mapY' ! nat (gy * int (width original) + gx))
          else mapX' ! nat (gy * int (width original) + gx) = mapX ! nat (gy * int (width original) + gx)
             \<and> mapY' ! nat (gy * int (width original) + gx) = mapY ! nat (gy * int (width original) + gx)))"
proof -
  define w where "w = int (width original)"
  define h where "h = int (height original)"
  define R where "R = localRadiusOf bs zoom ls aid"
  define minX where "minX = max 0 \<lfloor>mouseX - R\<rfloor>"
  define minY where "minY = max 0 \<lfloor>mouseY - R\<rfloor>"
  define maxX where "maxX = min w \<lceil>mouseX + R\<rceil>"
  define maxY where "maxY = min h \<lceil>mouseY + R\<rceil>"
  define regionW where "regionW = maxX - minX"
  define regionH where "regionH = maxY - minY"
  note defs = w_def h_def R_def minX_def minY_def maxX_def maxY_def regionW_def regionH_def
  have lm: "length mapX = nat (w * h)" "length mapY = nat (w * h)"
    using l by (simp_all add: w_def h_def nat_mult_distrib)
  have box: "inBrushBox R mouseX mouseY w h gx gy
               \<longleftrightarrow> minX \<le> gx \<and> gx < minX + regionW \<and> minY \<le> gy \<and> gy < minY + regionH" for gx gy
    by (simp add: inBrushBox_def defs)
  have ad: "applyDistortion tool bs zoom ls aid eng mouseX mouseY prevX prevY =
      (if regionW \<le> 0 \<or> regionH \<le> 0 then Some eng
       else distortRegion tool (strength bs) R mouseX mouseY (mouseX - prevX) (mouseY - prevY)
              mapX mapY w h minX minY regionW regionH
            \<bind> (\<lambda>(tempMapX, tempMapY).
                  commitRegion tempMapX tempMapY w minX minY regionW regionH (mapX, mapY)
                  \<bind> (\<lambda>(mapX', mapY'). Some (eng\<lparr>mapXRef := Some mapX', mapYRef := Some mapY'\<rparr>))))"
    by (simp add: applyDistortion_def e Let_def defs)
  have same: "eng\<lparr>mapXRef := Some mapX, mapYRef := Some mapY\<rparr> = eng"
    using e by simp
  show ?thesis
  proof (cases "regionW \<le> 0 \<or> regionH \<le> 0")
    case True
    then have nobox: "\<not> inBrushBox R mouseX mouseY w h gx gy" for gx gy
      unfolding box by auto
    show ?thesis
    proof (intro exI conjI)
      show "applyDistortion tool bs zoom ls aid eng mouseX mouseY prevX prevY
              = Some (eng\<lparr>mapXRef := Some mapX, mapYRef := Some mapY\<rparr>)"
        using ad True same by simp
      show "\<forall>gx gy. 0 \<le> gx \<longrightarrow> gx < int (width original) \<longrightarrow> 0 \<le> gy \<longrightarrow> gy < int (height original) \<longrightarrow>
         (if inBrushBox (localRadiusOf bs zoom ls aid) mouseX mouseY
               (int (width original)) (int (height original)) gx gy
          then distortCell tool (strength bs) (localRadiusOf bs zoom ls aid) mouseX mouseY
                 (mouseX - prevX) (mouseY - prevY) mapX mapY
                 (int (width original)) (int (height original)) gx gy
                 = Some (mapX ! nat (gy * int (width original) + gx),
                         mapY ! nat (gy * int (width original) + gx))
          else mapX ! nat (gy * int (width original) + gx) = mapX ! nat (gy * int (width original) + gx)
             \<and> mapY ! nat (gy * int (width original) + gx) = mapY ! nat (gy * int (width original) + gx))"
        using nobox unfolding w_def h_def R_def by simp
    qed simp_all
  next
    case False
    then have rw: "0 < regionW" and rh: "0 < regionH" by auto
    have mn: "0 \<le> minX" "0 \<le> minY" by (simp_all add: minX_def minY_def)
    have mx: "minX + regionW \<le> w" "minY + regionH \<le> h"
      by (simp_all add: regionW_def regionH_def maxX_def maxY_def)
    let ?D = "\<lambda>gx gy. distortCell tool (strength bs) R mouseX mouseY (mouseX - prevX) (mouseY - prevY)
                 mapX mapY w h gx gy"
    have ok: "\<exists>v. ?D (minX + x) (minY + y) = Some v"
      if "0 \<le> x" "x < regionW" "0 \<le> y" "y < regionH" for x y
    proof (rule distortCell_Some)
      show "0 \<le> minX + x" "minX + x < w" "0 \<le> minY + y" "minY + y < h" using that mn mx by auto
    qed (rule lm)+
    from distortRegion_spec[OF rw rh ok]
    obtain tX tY where t:
      "distortRegion tool (strength bs) R mouseX mouseY (mouseX - prevX) (mouseY - prevY)
              mapX mapY w h minX minY regionW regionH = Some (tX, tY)"
      "length tX = nat (regionW * regionH)" "length tY = nat (regionW * regionH)"
      "\<And>x y. 0 \<le> x \<Longrightarrow> x < regionW \<Longrightarrow> 0 \<le> y \<Longrightarrow> y < regionH \<Longrightarrow>
          ?D (minX + x) (minY + y) = Some (tX ! nat (y * regionW + x), tY ! nat (y * regionW + x))"
      by blast
    from commitRegion_spec[OF rw rh mn mx t(2,3) lm]
    obtain mX mY where m:
      "commitRegion tX tY w minX minY regionW regionH (mapX, mapY) = Some (mX, mY)"
      "length mX = length mapX" "length mY = length mapY"
      "\<And>x y. 0 \<le> x \<Longrightarrow> x < regionW \<Longrightarrow> 0 \<le> y \<Longrightarrow> y < regionH \<Longrightarrow>
                 mX ! nat ((minY + y) * w + (minX + x)) = tX ! nat (y * regionW + x)
               \<and> mY ! nat ((minY + y) * w + (minX + x)) = tY ! nat (y * regionW + x)"
      "\<And>gx gy. 0 \<le> gx \<Longrightarrow> gx < w \<Longrightarrow> 0 \<le> gy \<Longrightarrow> gy < h \<Longrightarrow>
                 \<not> (minX \<le> gx \<and> gx < minX + regionW \<and> minY \<le> gy \<and> gy < minY + regionH) \<Longrightarrow>
                 mX ! nat (gy * w + gx) = mapX ! nat (gy * w + gx)
               \<and> mY ! nat (gy * w + gx) = mapY ! nat (gy * w + gx)"
      by blast
    have cell: "if inBrushBox R mouseX mouseY w h gx gy
          then ?D gx gy = Some (mX ! nat (gy * w + gx), mY ! nat (gy * w + gx))
          else mX ! nat (gy * w + gx) = mapX ! nat (gy * w + gx)
             \<and> mY ! nat (gy * w + gx) = mapY ! nat (gy * w + gx)"
      if g: "0 \<le> gx" "gx < w" "0 \<le> gy" "gy < h" for gx gy
    proof (cases "inBrushBox R mouseX mouseY w h gx gy")
      case True
      then have r: "0 \<le> gx - minX" "gx - minX < regionW" "0 \<le> gy - minY" "gy - minY < regionH"
        unfolding box by auto
      from t(4)[OF r] m(4)[OF r] True show ?thesis by simp
    next
      case False
      then have "\<not> (minX \<le> gx \<and> gx < minX + regionW \<and> minY \<le> gy \<and> gy < minY + regionH)"
        unfolding box .
      from m(5)[OF g this] False show ?thesis by simp
    qed
    show ?thesis
    proof (intro exI conjI)
      show "applyDistortion tool bs zoom ls aid eng mouseX mouseY prevX prevY
              = Some (eng\<lparr>mapXRef := Some mX, mapYRef := Some mY\<rparr>)"
        using ad False t(1) m(1) by simp
      show "length mX = length mapX" "length mY = length mapY" by (rule m)+
      show "\<forall>gx gy. 0 \<le> gx \<longrightarrow> gx < int (width original) \<longrightarrow> 0 \<le> gy \<longrightarrow> gy < int (height original) \<longrightarrow>
         (if inBrushBox (localRadiusOf bs zoom ls aid) mouseX mouseY
               (int (width original)) (int (height original)) gx gy
          then distortCell tool (strength bs) (localRadiusOf bs zoom ls aid) mouseX mouseY
                 (mouseX - prevX) (mouseY - prevY) mapX mapY
                 (int (width original)) (int (height original)) gx gy
                 = Some (mX ! nat (gy * int (width original) + gx),
                         mY ! nat (gy * int (width original) + gx))
          else mX ! nat (gy * int (width original) + gx) = mapX ! nat (gy * int (width original) + gx)
             \<and> mY ! nat (gy * int (width original) + gx) = mapY ! nat (gy * int (width original) + gx))"
        using cell unfolding w_def h_def R_def by blast
    qed
  qed
qed

lemma grid_list_eq:
  fixes a b :: "'a list"
  assumes la: "length a = nat (w * h)" and lb: "length b = nat (w * h)" and w: "0 \<le> w"
    and eq: "\<And>gx gy. 0 \<le> gx \<Longrightarrow> gx < w \<Longrightarrow> 0 \<le> gy \<Longrightarrow> gy < h
                \<Longrightarrow> a ! nat (gy * w + gx) = b ! nat (gy * w + gx)"
  shows "a = b"
proof (rule nth_equalityI)
  show "length a = length b" using la lb by simp
next
  fix i assume i: "i < length a"
  then have iw: "int i < w * h" using la by (simp add: nat_less_iff)
  then have wpos: "0 < w" using w by (cases "w = 0") auto
  let ?gx = "int i mod w" and ?gy = "int i div w"
  have 1: "0 \<le> ?gx" "?gx < w" using wpos by simp_all
  have 2: "0 \<le> ?gy" using wpos by (simp add: pos_imp_zdiv_nonneg_iff)
  have 3: "?gy < h"
  proof (rule ccontr)
    assume "\<not> ?gy < h"
    then have "h \<le> ?gy" by simp
    then have "h * w \<le> ?gy * w" using wpos by (intro mult_right_mono) auto
    moreover have "?gy * w + ?gx = int i" by simp
    ultimately have "h * w \<le> int i" using 1(1) by linarith
    then show False using iw by (simp add: mult.commute)
  qed
  have "a ! nat (?gy * w + ?gx) = b ! nat (?gy * w + ?gx)" by (rule eq[OF 1 2 3])
  then show "a ! i = b ! i" by simp
qed

lemma brush_in_box:
  assumes R: "0 < R" and g: "0 \<le> gx" "gx < w" "0 \<le> gy" "gy < h"
    and d: "(of_int gx - mouseX) * (of_int gx - mouseX) + (of_int gy - mouseY) * (of_int gy - mouseY)
              < R * R"
  shows "inBrushBox R mouseX mouseY w h gx gy"
proof -
  have sq: "a * a < R * R \<Longrightarrow> \<bar>a\<bar> < R" for a :: real
  proof (rule ccontr)
    assume lt: "a * a < R * R" and "\<not> \<bar>a\<bar> < R"
    then have "R \<le> \<bar>a\<bar>" by simp
    then have "R * R \<le> \<bar>a\<bar> * \<bar>a\<bar>" using R by (intro mult_mono) simp_all
    also have "\<dots> = a * a" by (rule abs_mult_self_eq)
    finally show False using lt by simp
  qed
  have "(of_int gx - mouseX) * (of_int gx - mouseX) < R * R"
    using d zero_le_square[of "of_int gy - mouseY"] zero_le_square[of "of_int gx - mouseX"] by linarith
  then have x: "\<bar>of_int gx - mouseX\<bar> < R" by (rule sq)
  have "(of_int gy - mouseY) * (of_int gy - mouseY) < R * R"
    using d zero_le_square[of "of_int gy - mouseY"] zero_le_square[of "of_int gx - mouseX"] by linarith
  then have y: "\<bar>of_int gy - mouseY\<bar> < R" by (rule sq)
  have "\<lfloor>mouseX - R\<rfloor> \<le> gx" using x by (simp add: floor_le_iff; linarith)
  moreover have "gx < \<lceil>mouseX + R\<rceil>" using x by (simp add: less_ceiling_iff; linarith)
  moreover have "\<lfloor>mouseY - R\<rfloor> \<le> gy" using y by (simp add: floor_le_iff; linarith)
  moreover have "gy < \<lceil>mouseY + R\<rceil>" using y by (simp add: less_ceiling_iff; linarith)
  ultimately show ?thesis using g by (simp add: inBrushBox_def)
qed

lemma brushPower_zero_strength: "brushPower R 0 d = 0"
  by (simp add: brushPower_def Let_def)

lemma sourceLookup_zero_power:
  "sourceLookup tool mouseX mouseY dx dy 0 gx gy = (of_int gx, of_int gy)"
  by (simp add: sourceLookup_def Let_def)

lemma distortCell_zero_strength:
  assumes g: "0 \<le> gx" "gx < w" "0 \<le> gy" "gy < h"
    and l: "length mapX = nat (w * h)" "length mapY = nat (w * h)"
  shows "distortCell tool 0 R mouseX mouseY dx dy mapX mapY w h gx gy
           = Some (mapX ! nat (gy * w + gx), mapY ! nat (gy * w + gx))"
proof (cases "(of_int gx - mouseX) * (of_int gx - mouseX) + (of_int gy - mouseY) * (of_int gy - mouseY)
           < R * R")
  case True
  have wh: "0 < w" "0 < h" using g by auto
  from distortCell_inside[OF wh l True, of tool 0 dx dy]
  obtain vx vy where v: "distortCell tool 0 R mouseX mouseY dx dy mapX mapY w h gx gy = Some (vx, vy)"
    "sample mapX w h (of_int gx) (of_int gy) = Some vx"
    "sample mapY w h (of_int gx) (of_int gy) = Some vy"
    by (auto simp: brushPower_zero_strength sourceLookup_zero_power)
  show ?thesis
    using v sample_at_pixel[OF g l(1)] sample_at_pixel[OF g l(2)] by simp
next
  case False
  from distortCell_outside[OF g l False] show ?thesis .
qed

text \<open>
  Claim C1. For a stroke of any tool on a loaded engine whose maps have one entry per pixel,
  and for every pixel \<open>(gx, gy)\<close> of the raster inside the brush radius, applyDistortion
  returns, and the new map entry at the pixel is the map as it was before the stroke,
  bilinearly resampled by \<open>sample\<close> at the tool's lookup point \<open>(lookupX, lookupY)\<close>. The
  right-hand sides mention only \<open>mapX\<close> and \<open>mapY\<close>, the maps before the call: the first pass
  reads them into the scratch buffers and only the second pass writes the map.
\<close>

theorem stroke_resamples_prestroke_map:
  assumes e: "mapXRef eng = Some mapX" "mapYRef eng = Some mapY"
      "activeOriginalDataRef eng = Some original"
    and l: "length mapX = width original * height original"
      "length mapY = width original * height original"
    and R: "0 < localRadiusOf bs zoom ls aid"
    and g: "0 \<le> gx" "gx < int (width original)" "0 \<le> gy" "gy < int (height original)"
    and d: "(of_int gx - mouseX) * (of_int gx - mouseX) + (of_int gy - mouseY) * (of_int gy - mouseY)
              < localRadiusOf bs zoom ls aid * localRadiusOf bs zoom ls aid"
    and lk: "sourceLookup tool mouseX mouseY (mouseX - prevX) (mouseY - prevY)
               (brushPower (localRadiusOf bs zoom ls aid) (strength bs)
                  ((of_int gx - mouseX) * (of_int gx - mouseX)
                   + (of_int gy - mouseY) * (of_int gy - mouseY))) gx gy = (lookupX, lookupY)"
  shows "\<exists>mapX' mapY'.
      applyDistortion tool bs zoom ls aid eng mouseX mouseY prevX prevY
        = Some (eng\<lparr>mapXRef := Some mapX', mapYRef := Some mapY'\<rparr>)
    \<and> sample mapX (int (width original)) (int (height original)) lookupX lookupY
        = Some (mapX' ! nat (gy * int (width original) + gx))
    \<and> sample mapY (int (width original)) (int (height original)) lookupX lookupY
        = Some (mapY' ! nat (gy * int (width original) + gx))"
proof -
  let ?w = "int (width original)" and ?h = "int (height original)"
  let ?R = "localRadiusOf bs zoom ls aid"
  have lm: "length mapX = nat (?w * ?h)" "length mapY = nat (?w * ?h)"
    using l by (simp_all add: nat_mult_distrib)
  have wh: "0 < ?w" "0 < ?h" using g by auto
  from applyDistortion_cells[OF e l, of tool bs zoom ls aid mouseX mouseY prevX prevY]
  obtain mapX' mapY' where a:
    "applyDistortion tool bs zoom ls aid eng mouseX mouseY prevX prevY
        = Some (eng\<lparr>mapXRef := Some mapX', mapYRef := Some mapY'\<rparr>)"
    and c: "\<And>gx gy. 0 \<le> gx \<Longrightarrow> gx < ?w \<Longrightarrow> 0 \<le> gy \<Longrightarrow> gy < ?h \<Longrightarrow>
         (if inBrushBox ?R mouseX mouseY ?w ?h gx gy
          then distortCell tool (strength bs) ?R mouseX mouseY
                 (mouseX - prevX) (mouseY - prevY) mapX mapY ?w ?h gx gy
                 = Some (mapX' ! nat (gy * ?w + gx), mapY' ! nat (gy * ?w + gx))
          else mapX' ! nat (gy * ?w + gx) = mapX ! nat (gy * ?w + gx)
             \<and> mapY' ! nat (gy * ?w + gx) = mapY ! nat (gy * ?w + gx))"
    by blast
  have "inBrushBox ?R mouseX mouseY ?w ?h gx gy" by (rule brush_in_box[OF R g d])
  with c[OF g] have dc: "distortCell tool (strength bs) ?R mouseX mouseY
                 (mouseX - prevX) (mouseY - prevY) mapX mapY ?w ?h gx gy
                 = Some (mapX' ! nat (gy * ?w + gx), mapY' ! nat (gy * ?w + gx))"
    by simp
  from distortCell_inside[OF wh lm d, of tool "strength bs" "mouseX - prevX" "mouseY - prevY"] dc lk
  have "sample mapX ?w ?h lookupX lookupY = Some (mapX' ! nat (gy * ?w + gx))
      \<and> sample mapY ?w ?h lookupX lookupY = Some (mapY' ! nat (gy * ?w + gx))"
    by auto
  with a show ?thesis by blast
qed

text \<open>
  Claim C3. A stroke with centre \<open>(mouseX, mouseY)\<close> and local radius \<open>R\<close> leaves the map
  entry of every pixel at distance at least \<open>R\<close> from the centre as it was, whether the
  pixel lies outside the bounding box or inside it; the maps keep their length.
\<close>

theorem stroke_leaves_outside_radius_unchanged:
  assumes e: "mapXRef eng = Some mapX" "mapYRef eng = Some mapY"
      "activeOriginalDataRef eng = Some original"
    and l: "length mapX = width original * height original"
      "length mapY = width original * height original"
    and R: "0 < localRadiusOf bs zoom ls aid"
    and g: "0 \<le> gx" "gx < int (width original)" "0 \<le> gy" "gy < int (height original)"
    and d: "localRadiusOf bs zoom ls aid
              \<le> sqrt ((of_int gx - mouseX) * (of_int gx - mouseX)
                       + (of_int gy - mouseY) * (of_int gy - mouseY))"
  shows "\<exists>mapX' mapY'.
      applyDistortion tool bs zoom ls aid eng mouseX mouseY prevX prevY
        = Some (eng\<lparr>mapXRef := Some mapX', mapYRef := Some mapY'\<rparr>)
    \<and> length mapX' = length mapX \<and> length mapY' = length mapY
    \<and> mapX' ! nat (gy * int (width original) + gx) = mapX ! nat (gy * int (width original) + gx)
    \<and> mapY' ! nat (gy * int (width original) + gx) = mapY ! nat (gy * int (width original) + gx)"
proof -
  let ?w = "int (width original)" and ?h = "int (height original)"
  let ?R = "localRadiusOf bs zoom ls aid"
  let ?d = "(of_int gx - mouseX) * (of_int gx - mouseX) + (of_int gy - mouseY) * (of_int gy - mouseY)"
  have lm: "length mapX = nat (?w * ?h)" "length mapY = nat (?w * ?h)"
    using l by (simp_all add: nat_mult_distrib)
  have "?R * ?R \<le> sqrt ?d * sqrt ?d" using R d by (intro mult_mono) simp_all
  also have "\<dots> = ?d" by simp
  finally have out: "\<not> ?d < ?R * ?R" by simp
  from applyDistortion_cells[OF e l, of tool bs zoom ls aid mouseX mouseY prevX prevY]
  obtain mapX' mapY' where a:
    "applyDistortion tool bs zoom ls aid eng mouseX mouseY prevX prevY
        = Some (eng\<lparr>mapXRef := Some mapX', mapYRef := Some mapY'\<rparr>)"
    "length mapX' = length mapX" "length mapY' = length mapY"
    and c: "\<And>gx gy. 0 \<le> gx \<Longrightarrow> gx < ?w \<Longrightarrow> 0 \<le> gy \<Longrightarrow> gy < ?h \<Longrightarrow>
         (if inBrushBox ?R mouseX mouseY ?w ?h gx gy
          then distortCell tool (strength bs) ?R mouseX mouseY
                 (mouseX - prevX) (mouseY - prevY) mapX mapY ?w ?h gx gy
                 = Some (mapX' ! nat (gy * ?w + gx), mapY' ! nat (gy * ?w + gx))
          else mapX' ! nat (gy * ?w + gx) = mapX ! nat (gy * ?w + gx)
             \<and> mapY' ! nat (gy * ?w + gx) = mapY ! nat (gy * ?w + gx))"
    by blast
  have "mapX' ! nat (gy * ?w + gx) = mapX ! nat (gy * ?w + gx)
      \<and> mapY' ! nat (gy * ?w + gx) = mapY ! nat (gy * ?w + gx)"
    using c[OF g] distortCell_outside[OF g lm out, of tool "strength bs" "mouseX - prevX" "mouseY - prevY"]
    by (cases "inBrushBox ?R mouseX mouseY ?w ?h gx gy") simp_all
  with a show ?thesis by blast
qed

text \<open>
  In exact arithmetic a stroke with strength 0 leaves the engine, and so the displacement map,
  as it was, for every tool, TWIRL_CW included, and for every map and stroke segment: the
  lookup point of TWIRL_CW, \<open>mouseX + (gx - mouseX)\<close>, is then the pixel itself. What holds
  in double precision is stated further down.
\<close>

theorem zero_strength_stroke_exact_arithmetic:
  assumes e: "mapXRef eng = Some mapX" "mapYRef eng = Some mapY"
      "activeOriginalDataRef eng = Some original"
    and l: "length mapX = width original * height original"
      "length mapY = width original * height original"
    and R: "0 < localRadiusOf bs zoom ls aid"
    and s: "strength bs = 0"
  shows "applyDistortion tool bs zoom ls aid eng mouseX mouseY prevX prevY = Some eng"
proof -
  let ?w = "int (width original)" and ?h = "int (height original)"
  let ?R = "localRadiusOf bs zoom ls aid"
  have lm: "length mapX = nat (?w * ?h)" "length mapY = nat (?w * ?h)"
    using l by (simp_all add: nat_mult_distrib)
  from applyDistortion_cells[OF e l, of tool bs zoom ls aid mouseX mouseY prevX prevY]
  obtain mapX' mapY' where a:
    "applyDistortion tool bs zoom ls aid eng mouseX mouseY prevX prevY
        = Some (eng\<lparr>mapXRef := Some mapX', mapYRef := Some mapY'\<rparr>)"
    "length mapX' = length mapX" "length mapY' = length mapY"
    and c: "\<And>gx gy. 0 \<le> gx \<Longrightarrow> gx < ?w \<Longrightarrow> 0 \<le> gy \<Longrightarrow> gy < ?h \<Longrightarrow>
         (if inBrushBox ?R mouseX mouseY ?w ?h gx gy
          then distortCell tool (strength bs) ?R mouseX mouseY
                 (mouseX - prevX) (mouseY - prevY) mapX mapY ?w ?h gx gy
                 = Some (mapX' ! nat (gy * ?w + gx), mapY' ! nat (gy * ?w + gx))
          else mapX' ! nat (gy * ?w + gx) = mapX ! nat (gy * ?w + gx)
             \<and> mapY' ! nat (gy * ?w + gx) = mapY ! nat (gy * ?w + gx))"
    by blast
  have cell: "mapX' ! nat (gy * ?w + gx) = mapX ! nat (gy * ?w + gx)
      \<and> mapY' ! nat (gy * ?w + gx) = mapY ! nat (gy * ?w + gx)"
    if g: "0 \<le> gx" "gx < ?w" "0 \<le> gy" "gy < ?h" for gx gy
    using c[OF g] distortCell_zero_strength[OF g lm, of tool ?R mouseX mouseY
        "mouseX - prevX" "mouseY - prevY"] s
    by (cases "inBrushBox ?R mouseX mouseY ?w ?h gx gy") simp_all
  have "mapX' = mapX"
    by (rule grid_list_eq[of _ ?w ?h]) (use a lm cell in simp_all)
  moreover have "mapY' = mapY"
    by (rule grid_list_eq[of _ ?w ?h]) (use a lm cell in simp_all)
  ultimately show ?thesis using a(1) e by simp
qed

lemma example_radius: "localRadiusOf (example_brush s) 1 [] ''a'' = 2"
  by (simp add: localRadiusOf_def example_brush_def)

lemma example_strength: "strength (example_brush s) = s"
  by (simp add: example_brush_def)

theorem stroke_resamples_prestroke_map_witness:
  "0 < localRadiusOf (example_brush 1) 1 [] ''a''
   \<and> (\<exists>mapX' mapY'.
      applyDistortion WARP (example_brush 1) 1 [] ''a'' example_engine 1 1 0 1
        = Some (example_engine\<lparr>mapXRef := Some mapX', mapYRef := Some mapY'\<rparr>)
    \<and> sample [0, 1, 0, 1] 2 2 0 1 = Some (mapX' ! 3)
    \<and> sample [0, 0, 1, 1] 2 2 0 1 = Some (mapY' ! 3))"
proof -
  have lk: "sourceLookup WARP 1 1 (1 - 0) (1 - 1)
               (brushPower (localRadiusOf (example_brush 1) 1 [] ''a'') (strength (example_brush 1))
                  ((of_int 1 - 1) * (of_int 1 - 1) + (of_int 1 - 1) * (of_int 1 - 1))) 1 1 = (0, 1)"
    by (simp add: example_radius example_strength sourceLookup_def brushPower_def)
  show ?thesis
    using stroke_resamples_prestroke_map[where eng = example_engine and mapX = "[0, 1, 0, 1]"
        and mapY = "[0, 0, 1, 1]" and original = "\<lparr>data = 0, width = 2, height = 2\<rparr>"
        and bs = "example_brush 1" and zoom = 1 and ls = "[]" and aid = "''a''"
        and gx = 1 and gy = 1 and mouseX = 1 and mouseY = 1 and prevX = 0 and prevY = 1
        and tool = WARP and lookupX = 0 and lookupY = 1, OF _ _ _ _ _ _ _ _ _ _ _ lk]
    by (simp add: example_engine_def example_radius)
qed

theorem stroke_leaves_outside_radius_unchanged_witness:
  "0 < localRadiusOf (example_brush 1) 1 [] ''a''
   \<and> localRadiusOf (example_brush 1) 1 [] ''a'' \<le> sqrt ((of_int 1 - (-1)) * (of_int 1 - (-1))
                       + (of_int 0 - 0) * (of_int 0 - 0))
   \<and> (\<exists>mapX' mapY'.
      applyDistortion WARP (example_brush 1) 1 [] ''a'' example_engine (-1) 0 0 1
        = Some (example_engine\<lparr>mapXRef := Some mapX', mapYRef := Some mapY'\<rparr>)
    \<and> length mapX' = length [0, 1, 0, 1 :: real] \<and> length mapY' = length [0, 0, 1, 1 :: real]
    \<and> mapX' ! 1 = [0, 1, 0, 1] ! 1 \<and> mapY' ! 1 = [0, 0, 1, 1] ! 1)"
  using stroke_leaves_outside_radius_unchanged[where eng = example_engine and mapX = "[0, 1, 0, 1]"
        and mapY = "[0, 0, 1, 1]" and original = "\<lparr>data = 0, width = 2, height = 2\<rparr>"
        and bs = "example_brush 1" and zoom = 1 and ls = "[]" and aid = "''a''"
        and gx = 1 and gy = 0 and mouseX = "-1" and mouseY = 0 and prevX = 0 and prevY = 1
        and tool = WARP]
  by (simp add: example_engine_def example_radius)

theorem zero_strength_stroke_exact_arithmetic_example:
  "0 < localRadiusOf (example_brush 0) 1 [] ''a'' \<and> strength (example_brush 0) = 0
   \<and> applyDistortion TWIRL_CW (example_brush 0) 1 [] ''a'' example_engine 1 1 0 1
        = Some example_engine"
  using zero_strength_stroke_exact_arithmetic[where eng = example_engine and mapX = "[0, 1, 0, 1]"
        and mapY = "[0, 0, 1, 1]" and original = "\<lparr>data = 0, width = 2, height = 2\<rparr>"
        and bs = "example_brush 0" and zoom = 1 and ls = "[]" and aid = "''a''"
        and mouseX = 1 and mouseY = 1 and prevX = 0 and prevY = 1 and tool = TWIRL_CW]
  by (simp add: example_engine_def example_radius example_strength)

text \<open>
  Claim C4. On a \<open>w \<times> h\<close> raster and at every real coordinate \<open>(u, v)\<close>, however far out of
  range, both resamplers return a value (no array is read out of range): the sum of the four
  corner samples at \<open>x0 = \<lfloor>u\<rfloor>\<close>, \<open>x1 = x0 + 1\<close>, \<open>y0 = \<lfloor>v\<rfloor>\<close>, \<open>y1 = y0 + 1\<close>, each index
  clamped on its own into \<open>[0, w - 1]\<close> or \<open>[0, h - 1]\<close>, weighted by the fractional parts
  \<open>u - x0\<close> and \<open>v - y0\<close>. This holds for \<open>sample\<close> on a map array and, for each of the four
  channels \<open>c\<close> (alpha included), for the resampling of the pixels in
  renderRegionFromMapsRef; every index read lies inside the array.
\<close>

theorem resampler_bilinear_edge_clamped:
  fixes arr :: "real list" and px :: "byte list"
  assumes "0 < w" and "0 < h"
  shows "let x0 = \<lfloor>u\<rfloor>; x1 = x0 + 1; y0 = \<lfloor>v\<rfloor>; y1 = y0 + 1;
             cx = (\<lambda>i. max 0 (min (w - 1) i));
             cy = (\<lambda>j. max 0 (min (h - 1) j));
             fu = u - of_int x0; fv = v - of_int y0
         in (\<forall>i \<in> {x0, x1}. \<forall>j \<in> {y0, y1}.
               0 \<le> cx i \<and> cx i \<le> w - 1 \<and> 0 \<le> cy j \<and> cy j \<le> h - 1
               \<and> 0 \<le> cy j * w + cx i \<and> cy j * w + cx i < w * h)
          \<and> (length arr = nat (w * h) \<longrightarrow>
               sample arr w h u v =
                 Some (arr ! nat (cy y0 * w + cx x0) * (1 - fu) * (1 - fv)
                     + arr ! nat (cy y0 * w + cx x1) * fu * (1 - fv)
                     + arr ! nat (cy y1 * w + cx x0) * (1 - fu) * fv
                     + arr ! nat (cy y1 * w + cx x1) * fu * fv))
          \<and> (length px = nat (4 * w * h) \<longrightarrow>
               (\<forall>c \<in> {0, 1, 2, 3}.
                  resampleChannel px w h u v c =
                    Some (real (unat (px ! nat ((cy y0 * w + cx x0) * 4 + c))) * (1 - fu) * (1 - fv)
                        + real (unat (px ! nat ((cy y0 * w + cx x1) * 4 + c))) * fu * (1 - fv)
                        + real (unat (px ! nat ((cy y1 * w + cx x0) * 4 + c))) * (1 - fu) * fv
                        + real (unat (px ! nat ((cy y1 * w + cx x1) * 4 + c))) * fu * fv)
                  \<and> (\<forall>i \<in> {x0, x1}. \<forall>j \<in> {y0, y1}.
                        0 \<le> (cy j * w + cx i) * 4 + c
                        \<and> (cy j * w + cx i) * 4 + c < int (length px))))"
proof -
  have rng: "0 \<le> max 0 (min (w - 1) i) \<and> max 0 (min (w - 1) i) \<le> w - 1
           \<and> 0 \<le> max 0 (min (h - 1) j) \<and> max 0 (min (h - 1) j) \<le> h - 1
           \<and> 0 \<le> max 0 (min (h - 1) j) * w + max 0 (min (w - 1) i)
           \<and> max 0 (min (h - 1) j) * w + max 0 (min (w - 1) i) < w * h" for i j
  proof -
    define sx where "sx = max 0 (min (w - 1) i)"
    define sy where "sy = max 0 (min (h - 1) j)"
    have a: "0 \<le> sx" "sx < w" unfolding sx_def by (rule clamp_range[OF assms(1)])+
    have b: "0 \<le> sy" "sy < h" unfolding sy_def by (rule clamp_range[OF assms(2)])+
    have c: "0 \<le> sy * w + sx" "sy * w + sx < w * h" by (rule idx_bound[OF a b])+
    have "0 \<le> sx \<and> sx \<le> w - 1 \<and> 0 \<le> sy \<and> sy \<le> h - 1
           \<and> 0 \<le> sy * w + sx \<and> sy * w + sx < w * h"
      using a b c by (intro conjI) linarith+
    then show ?thesis unfolding sx_def sy_def .
  qed
  have smp: "sample arr w h u v =
       Some (arr ! nat (max 0 (min (h - 1) \<lfloor>v\<rfloor>) * w + max 0 (min (w - 1) \<lfloor>u\<rfloor>))
               * (1 - (u - of_int \<lfloor>u\<rfloor>)) * (1 - (v - of_int \<lfloor>v\<rfloor>))
           + arr ! nat (max 0 (min (h - 1) \<lfloor>v\<rfloor>) * w + max 0 (min (w - 1) (\<lfloor>u\<rfloor> + 1)))
               * (u - of_int \<lfloor>u\<rfloor>) * (1 - (v - of_int \<lfloor>v\<rfloor>))
           + arr ! nat (max 0 (min (h - 1) (\<lfloor>v\<rfloor> + 1)) * w + max 0 (min (w - 1) \<lfloor>u\<rfloor>))
               * (1 - (u - of_int \<lfloor>u\<rfloor>)) * (v - of_int \<lfloor>v\<rfloor>)
           + arr ! nat (max 0 (min (h - 1) (\<lfloor>v\<rfloor> + 1)) * w + max 0 (min (w - 1) (\<lfloor>u\<rfloor> + 1)))
               * (u - of_int \<lfloor>u\<rfloor>) * (v - of_int \<lfloor>v\<rfloor>))"
    if "length arr = nat (w * h)"
    by (rule sample_Some[OF assms that])
  have chan: "resampleChannel px w h u v c =
     Some (real (unat (px ! nat ((max 0 (min (h - 1) \<lfloor>v\<rfloor>) * w + max 0 (min (w - 1) \<lfloor>u\<rfloor>)) * 4 + c)))
             * (1 - (u - of_int \<lfloor>u\<rfloor>)) * (1 - (v - of_int \<lfloor>v\<rfloor>))
         + real (unat (px ! nat ((max 0 (min (h - 1) \<lfloor>v\<rfloor>) * w + max 0 (min (w - 1) (\<lfloor>u\<rfloor> + 1))) * 4 + c)))
             * (u - of_int \<lfloor>u\<rfloor>) * (1 - (v - of_int \<lfloor>v\<rfloor>))
         + real (unat (px ! nat ((max 0 (min (h - 1) (\<lfloor>v\<rfloor> + 1)) * w + max 0 (min (w - 1) \<lfloor>u\<rfloor>)) * 4 + c)))
             * (1 - (u - of_int \<lfloor>u\<rfloor>)) * (v - of_int \<lfloor>v\<rfloor>)
         + real (unat (px ! nat ((max 0 (min (h - 1) (\<lfloor>v\<rfloor> + 1)) * w + max 0 (min (w - 1) (\<lfloor>u\<rfloor> + 1))) * 4 + c)))
             * (u - of_int \<lfloor>u\<rfloor>) * (v - of_int \<lfloor>v\<rfloor>))"
    if "length px = nat (4 * w * h)" "0 \<le> c" "c < 4" for c
    by (rule resampleChannel_Some[OF assms that])
  have pix: "0 \<le> (max 0 (min (h - 1) j) * w + max 0 (min (w - 1) i)) * 4 + c
           \<and> (max 0 (min (h - 1) j) * w + max 0 (min (w - 1) i)) * 4 + c < int (length px)"
    if l: "length px = nat (4 * w * h)" and c: "0 \<le> c" "c < 4" for i j c
  proof -
    define sx where "sx = max 0 (min (w - 1) i)"
    define sy where "sy = max 0 (min (h - 1) j)"
    have a: "0 \<le> sx" "sx < w" unfolding sx_def by (rule clamp_range[OF assms(1)])+
    have b: "0 \<le> sy" "sy < h" unfolding sy_def by (rule clamp_range[OF assms(2)])+
    have p: "0 \<le> (sy * w + sx) * 4 + c" "(sy * w + sx) * 4 + c < 4 * w * h"
      by (rule pixel_idx_bound[OF a b c])+
    have "0 \<le> 4 * w * h" using assms by simp
    then have "int (length px) = 4 * w * h" using l by simp
    then have "0 \<le> (sy * w + sx) * 4 + c \<and> (sy * w + sx) * 4 + c < int (length px)"
      using p by simp
    then show ?thesis unfolding sx_def sy_def .
  qed
  have c4: "c \<in> {0, 1, 2, 3} \<Longrightarrow> 0 \<le> c \<and> c < 4" for c :: int by auto
  show ?thesis
    unfolding Let_def
  proof (intro conjI ballI impI)
    fix i j
    show "0 \<le> max 0 (min (w - 1) i)" "max 0 (min (w - 1) i) \<le> w - 1"
      "0 \<le> max 0 (min (h - 1) j)" "max 0 (min (h - 1) j) \<le> h - 1"
      "0 \<le> max 0 (min (h - 1) j) * w + max 0 (min (w - 1) i)"
      "max 0 (min (h - 1) j) * w + max 0 (min (w - 1) i) < w * h"
      using rng[of i j] by blast+
  next
    assume "length arr = nat (w * h)"
    then show "sample arr w h u v =
       Some (arr ! nat (max 0 (min (h - 1) \<lfloor>v\<rfloor>) * w + max 0 (min (w - 1) \<lfloor>u\<rfloor>))
               * (1 - (u - of_int \<lfloor>u\<rfloor>)) * (1 - (v - of_int \<lfloor>v\<rfloor>))
           + arr ! nat (max 0 (min (h - 1) \<lfloor>v\<rfloor>) * w + max 0 (min (w - 1) (\<lfloor>u\<rfloor> + 1)))
               * (u - of_int \<lfloor>u\<rfloor>) * (1 - (v - of_int \<lfloor>v\<rfloor>))
           + arr ! nat (max 0 (min (h - 1) (\<lfloor>v\<rfloor> + 1)) * w + max 0 (min (w - 1) \<lfloor>u\<rfloor>))
               * (1 - (u - of_int \<lfloor>u\<rfloor>)) * (v - of_int \<lfloor>v\<rfloor>)
           + arr ! nat (max 0 (min (h - 1) (\<lfloor>v\<rfloor> + 1)) * w + max 0 (min (w - 1) (\<lfloor>u\<rfloor> + 1)))
               * (u - of_int \<lfloor>u\<rfloor>) * (v - of_int \<lfloor>v\<rfloor>))"
      by (rule smp)
  next
    fix c :: int assume l: "length px = nat (4 * w * h)" and c: "c \<in> {0, 1, 2, 3}"
    show "resampleChannel px w h u v c =
     Some (real (unat (px ! nat ((max 0 (min (h - 1) \<lfloor>v\<rfloor>) * w + max 0 (min (w - 1) \<lfloor>u\<rfloor>)) * 4 + c)))
             * (1 - (u - of_int \<lfloor>u\<rfloor>)) * (1 - (v - of_int \<lfloor>v\<rfloor>))
         + real (unat (px ! nat ((max 0 (min (h - 1) \<lfloor>v\<rfloor>) * w + max 0 (min (w - 1) (\<lfloor>u\<rfloor> + 1))) * 4 + c)))
             * (u - of_int \<lfloor>u\<rfloor>) * (1 - (v - of_int \<lfloor>v\<rfloor>))
         + real (unat (px ! nat ((max 0 (min (h - 1) (\<lfloor>v\<rfloor> + 1)) * w + max 0 (min (w - 1) \<lfloor>u\<rfloor>)) * 4 + c)))
             * (1 - (u - of_int \<lfloor>u\<rfloor>)) * (v - of_int \<lfloor>v\<rfloor>)
         + real (unat (px ! nat ((max 0 (min (h - 1) (\<lfloor>v\<rfloor> + 1)) * w + max 0 (min (w - 1) (\<lfloor>u\<rfloor> + 1))) * 4 + c)))
             * (u - of_int \<lfloor>u\<rfloor>) * (v - of_int \<lfloor>v\<rfloor>))"
      using chan[OF l] c4[OF c] by blast
    fix i j
    show "0 \<le> (max 0 (min (h - 1) j) * w + max 0 (min (w - 1) i)) * 4 + c"
      "(max 0 (min (h - 1) j) * w + max 0 (min (w - 1) i)) * 4 + c < int (length px)"
      using pix[OF l, of c j i] c4[OF c] by blast+
  qed
qed

theorem resampler_bilinear_edge_clamped_witness:
  "(0 :: int) < 2 \<and> (0 :: int) < 1
   \<and> sample [10, 20] 2 1 (1 / 2) (- 7 / 2) = Some 15
   \<and> resampleChannel [1, 2, 3, 4, 5, 6, 7, 8] 2 1 900 (1 / 4) 3 = Some 8"
proof -
  have 1: "sample [10, 20] 2 1 (1 / 2) (- 7 / 2) = Some 15"
    using resampler_bilinear_edge_clamped[of 2 1 "1 / 2" "- 7 / 2" "[10, 20]" "[]"]
    by (simp add: Let_def)
  have 2: "resampleChannel [1, 2, 3, 4, 5, 6, 7, 8] 2 1 900 (1 / 4) 3 = Some 8"
    using resampler_bilinear_edge_clamped[of 2 1 900 "1 / 4" "[]" "[1, 2, 3, 4, 5, 6, 7, 8]"]
    by (simp add: Let_def)
  show ?thesis using 1 2 by simp
qed

lemma for_loop_total: "for_loop (\<lambda>i s. Some (g i s)) js s = Some (fold g js s)"
  by (induction js arbitrary: s) simp_all

lemma fold_product: "fold (\<lambda>y. fold (g y) xs) ys s = fold (\<lambda>(y, x). g y x) (List.product ys xs) s"
proof (induction ys arbitrary: s)
  case Nil
  then show ?case by simp
next
  case (Cons y ys)
  have inner: "fold (\<lambda>(y, x). g y x) (map (Pair y) xs) t = fold (g y) xs t" for t
    by (induction xs arbitrary: t) simp_all
  show ?case by (simp add: inner Cons.IH)
qed

lemma fold_establish:
  assumes "distinct js" and "Inv s"
    and step: "\<And>i s. i \<in> set js \<Longrightarrow> Inv s \<Longrightarrow> Inv (g i s) \<and> Q i (g i s)"
    and pres: "\<And>i j s. i \<in> set js \<Longrightarrow> j \<in> set js \<Longrightarrow> i \<noteq> j \<Longrightarrow> Inv s \<Longrightarrow> Q i s
                 \<Longrightarrow> Q i (g j s)"
  shows "Inv (fold g js s) \<and> (\<forall>i\<in>set js. Q i (fold g js s))"
proof -
  have "\<exists>s'. for_loop (\<lambda>i s. Some (g i s)) js s = Some s' \<and> Inv s' \<and> (\<forall>i\<in>set js. Q i s')"
  proof (rule for_loop_establish[where Inv = Inv and Q = Q])
    show "distinct js" by fact
    show "Inv s" by fact
    show "\<exists>s'. Some (g i s) = Some s' \<and> Inv s' \<and> Q i s'" if "i \<in> set js" "Inv s" for i s
      using step[OF that] by simp
    show "Q i s'" if "i \<in> set js" "j \<in> set js" "i \<noteq> j" "Inv s" "Q i s" "Some (g j s) = Some s'"
      for i j s s'
      using pres[OF that(1-5)] that(6) by simp
  qed
  then show ?thesis by (simp add: for_loop_total)
qed

lemma initEngine_identity:
  assumes img: "imageData layer = Some img"
  shows "\<exists>idX idY. initEngine layer eng =
           \<lparr>mapXRef = Some idX, mapYRef = Some idY, activeOriginalDataRef = Some img,
            loadedLayerIdRef = Some (layer_id layer)\<rparr>
       \<and> length idX = width img * height img \<and> length idY = width img * height img
       \<and> (\<forall>x y. 0 \<le> x \<longrightarrow> x < int (width img) \<longrightarrow> 0 \<le> y \<longrightarrow> y < int (height img) \<longrightarrow>
             idX ! nat (y * int (width img) + x) = of_int x
           \<and> idY ! nat (y * int (width img) + x) = of_int y)"
proof -
  define w where "w = int (width img)"
  define h where "h = int (height img)"
  define n where "n = nat (w * h)"
  define g :: "int \<times> int \<Rightarrow> real list \<times> real list \<Rightarrow> real list \<times> real list"
    where "g = (\<lambda>(y, x) (mX, mY). let i = y * w + x in (arr_set mX i (of_int x), arr_set mY i (of_int y)))"
  define m where "m = fold g (List.product [0..h - 1] [0..w - 1]) (replicate n 0, replicate n 0)"
  let ?Inv = "\<lambda>t :: real list \<times> real list. length (fst t) = n \<and> length (snd t) = n"
  let ?Q = "\<lambda>(y, x) (t :: real list \<times> real list).
               fst t ! nat (y * w + x) = of_int x \<and> snd t ! nat (y * w + x) = of_int y"
  have ie: "initEngine layer eng =
           \<lparr>mapXRef = Some (fst m), mapYRef = Some (snd m), activeOriginalDataRef = Some img,
            loadedLayerIdRef = Some (layer_id layer)\<rparr>"
    unfolding initEngine_def m_def g_def
    by (simp add: img Let_def fold_product w_def h_def n_def split_def)
  have inrange: "0 \<le> y * w + x \<and> y * w + x < int n \<and> nat (y * w + x) < n"
    if "0 \<le> x" "x < w" "0 \<le> y" "y < h" for x y
  proof -
    have "0 < w * h" using that by simp
    then show ?thesis using idx_bound[OF that] by (simp add: n_def zless_nat_conj)
  qed
  have est: "?Inv m \<and> (\<forall>c\<in>set (List.product [0..h - 1] [0..w - 1]). ?Q c m)"
    unfolding m_def
  proof (rule fold_establish[where Inv = ?Inv and Q = ?Q])
    show "distinct (List.product [0..h - 1] [0..w - 1])" by (rule cells_distinct)
    show "?Inv (replicate n 0, replicate n 0)" by simp
  next
    fix c :: "int \<times> int" and t :: "real list \<times> real list"
    assume c: "c \<in> set (List.product [0..h - 1] [0..w - 1])" and inv: "?Inv t"
    obtain y x where cx: "c = (y, x)" by (cases c)
    obtain tX tY where tt: "t = (tX, tY)" by (cases t)
    have r: "0 \<le> x" "x < w" "0 \<le> y" "y < h" using c cx by auto
    show "?Inv (g c t) \<and> ?Q c (g c t)"
      using inrange[OF r] inv by (simp add: g_def cx tt Let_def nth_arr_set)
  next
    fix c c' :: "int \<times> int" and t :: "real list \<times> real list"
    assume c: "c \<in> set (List.product [0..h - 1] [0..w - 1])"
      and c': "c' \<in> set (List.product [0..h - 1] [0..w - 1])"
      and ne: "c \<noteq> c'" and inv: "?Inv t" and q: "?Q c t"
    obtain y x where cx: "c = (y, x)" by (cases c)
    obtain y' x' where cx': "c' = (y', x')" by (cases c')
    obtain tX tY where tt: "t = (tX, tY)" by (cases t)
    have r: "0 \<le> x" "x < w" "0 \<le> y" "y < h" using c cx by auto
    have r': "0 \<le> x'" "x' < w" "0 \<le> y'" "y' < h" using c' cx' by auto
    have neq: "y' * w + x' \<noteq> int (nat (y * w + x))"
    proof
      assume "y' * w + x' = int (nat (y * w + x))"
      then have "y' * w + x' = y * w + x" using inrange[OF r] by simp
      from idx_inj[OF r'(1,2) r(1,2) this] show False using ne cx cx' by simp
    qed
    show "?Q c (g c' t)"
      using q inrange[OF r] inv neq by (simp add: g_def cx cx' tt Let_def nth_arr_set)
  qed
  have cells: "fst m ! nat (y * w + x) = of_int x \<and> snd m ! nat (y * w + x) = of_int y"
    if "0 \<le> x" "x < w" "0 \<le> y" "y < h" for x y
  proof -
    have "(y, x) \<in> set (List.product [0..h - 1] [0..w - 1])" using that by auto
    with est have "?Q (y, x) m" by blast
    then show ?thesis by simp
  qed
  have len: "length (fst m) = width img * height img" "length (snd m) = width img * height img"
    using est by (simp_all add: n_def w_def h_def nat_mult_distrib)
  show ?thesis
    using ie len cells unfolding w_def h_def by blast
qed

lemma upto_0_3: "[0..3] = [0, 1, 2, 3 :: int]"
  by (simp add: upto_rec1)

lemma four_sets:
  fixes out :: "'a list" and v0 v1 v2 v3 :: 'a
  assumes b: "0 \<le> b" "b + 3 < int (length out)"
  defines "o4 \<equiv> arr_set (arr_set (arr_set (arr_set out (b + 0) v0) (b + 1) v1) (b + 2) v2) (b + 3) v3"
  shows "length o4 = length out"
    and "o4 ! nat b = v0" and "o4 ! nat (b + 1) = v1" and "o4 ! nat (b + 2) = v2"
    and "o4 ! nat (b + 3) = v3"
    and "\<And>k. k < length out \<Longrightarrow> int k < b \<or> b + 3 < int k \<Longrightarrow> o4 ! k = out ! k"
proof -
  show "length o4 = length out" by (simp add: o4_def)
  have lt: "nat b < length out" "nat (b + 1) < length out" "nat (b + 2) < length out"
    "nat (b + 3) < length out"
    using b by linarith+
  show "o4 ! nat b = v0" using b lt by (simp add: o4_def nth_arr_set)
  show "o4 ! nat (b + 1) = v1" using b lt by (simp add: o4_def nth_arr_set)
  show "o4 ! nat (b + 2) = v2" using b lt by (simp add: o4_def nth_arr_set)
  show "o4 ! nat (b + 3) = v3" using b lt by (simp add: o4_def nth_arr_set)
  show "o4 ! k = out ! k" if "k < length out" "int k < b \<or> b + 3 < int k" for k
  proof -
    have "b \<noteq> int k" "b + 1 \<noteq> int k" "b + 2 \<noteq> int k" "b + 3 \<noteq> int k" using that(2) by linarith+
    then show ?thesis using that(1) by (simp add: o4_def nth_arr_set)
  qed
qed

lemma renderPixel_eq:
  assumes o: "0 < ow" "0 < oh" "length px = nat (4 * ow * oh)"
    and p: "0 \<le> (startY + y) * totalW + (startX + x)"
      "(startY + y) * totalW + (startX + x) < int (length mapX)"
      "(startY + y) * totalW + (startX + x) < int (length mapY)"
  shows "\<exists>r0 r1 r2 r3.
      resampleChannel px ow oh (mapX ! nat ((startY + y) * totalW + (startX + x)))
         (mapY ! nat ((startY + y) * totalW + (startX + x))) 0 = Some r0
    \<and> resampleChannel px ow oh (mapX ! nat ((startY + y) * totalW + (startX + x)))
         (mapY ! nat ((startY + y) * totalW + (startX + x))) 1 = Some r1
    \<and> resampleChannel px ow oh (mapX ! nat ((startY + y) * totalW + (startX + x)))
         (mapY ! nat ((startY + y) * totalW + (startX + x))) 2 = Some r2
    \<and> resampleChannel px ow oh (mapX ! nat ((startY + y) * totalW + (startX + x)))
         (mapY ! nat ((startY + y) * totalW + (startX + x))) 3 = Some r3
    \<and> renderPixel startX startY regionW totalW mapX mapY px ow oh y x out =
        Some (arr_set (arr_set (arr_set (arr_set out ((y * regionW + x) * 4 + 0) (toUint8Clamp r0))
                ((y * regionW + x) * 4 + 1) (toUint8Clamp r1))
                ((y * regionW + x) * 4 + 2) (toUint8Clamp r2))
                ((y * regionW + x) * 4 + 3) (toUint8Clamp r3))"
proof -
  define pIndex where "pIndex = (startY + y) * totalW + (startX + x)"
  define u where "u = mapX ! nat pIndex"
  define v where "v = mapY ! nat pIndex"
  have gx: "arr_get mapX pIndex = Some u" and gy: "arr_get mapY pIndex = Some v"
    using p by (simp_all add: arr_get_def pIndex_def u_def v_def)
  obtain r0 where r0: "resampleChannel px ow oh u v 0 = Some r0"
    using resampleChannel_Some[OF o, of 0 u v] by simp
  obtain r1 where r1: "resampleChannel px ow oh u v 1 = Some r1"
    using resampleChannel_Some[OF o, of 1 u v] by simp
  obtain r2 where r2: "resampleChannel px ow oh u v 2 = Some r2"
    using resampleChannel_Some[OF o, of 2 u v] by simp
  obtain r3 where r3: "resampleChannel px ow oh u v 3 = Some r3"
    using resampleChannel_Some[OF o, of 3 u v] by simp
  have "renderPixel startX startY regionW totalW mapX mapY px ow oh y x out =
        Some (arr_set (arr_set (arr_set (arr_set out ((y * regionW + x) * 4 + 0) (toUint8Clamp r0))
                ((y * regionW + x) * 4 + 1) (toUint8Clamp r1))
                ((y * regionW + x) * 4 + 2) (toUint8Clamp r2))
                ((y * regionW + x) * 4 + 3) (toUint8Clamp r3))"
    unfolding renderPixel_def Let_def pIndex_def[symmetric]
    by (simp add: gx gy upto_0_3 r0 r1 r2 r3)
  with r0 r1 r2 r3 show ?thesis unfolding u_def v_def pIndex_def by blast
qed

lemma renderRegion_spec:
  assumes o: "0 < ow" "0 < oh" "length px = nat (4 * ow * oh)"
    and st: "0 \<le> startX" "0 \<le> startY" "startX + regionW \<le> totalW" "startY + regionH \<le> totalH"
    and lm: "length mapX = nat (totalW * totalH)" "length mapY = nat (totalW * totalH)"
    and lo: "length out = nat (4 * regionW * regionH)"
  shows "\<exists>out'. renderRegionFromMapsRef out startX startY regionW regionH totalW totalH
                   mapX mapY px ow oh = Some out'
      \<and> length out' = length out
      \<and> (\<forall>x y c. 0 \<le> x \<longrightarrow> x < regionW \<longrightarrow> 0 \<le> y \<longrightarrow> y < regionH \<longrightarrow> 0 \<le> c \<longrightarrow> c < 4 \<longrightarrow>
           (\<exists>r. resampleChannel px ow oh (mapX ! nat ((startY + y) * totalW + (startX + x)))
                   (mapY ! nat ((startY + y) * totalW + (startX + x))) c = Some r
               \<and> out' ! nat ((y * regionW + x) * 4 + c) = toUint8Clamp r))"
proof -
  let ?n = "length out"
  let ?P = "\<lambda>y x. (startY + y) * totalW + (startX + x)"
  let ?Inv = "\<lambda>t :: byte list. length t = ?n"
  let ?Q = "\<lambda>(y, x) (t :: byte list). \<forall>c. 0 \<le> c \<longrightarrow> c < 4 \<longrightarrow>
           (\<exists>r. resampleChannel px ow oh (mapX ! nat (?P y x)) (mapY ! nat (?P y x)) c = Some r
               \<and> t ! nat ((y * regionW + x) * 4 + c) = toUint8Clamp r)"
  have prange: "0 \<le> ?P y x \<and> ?P y x < int (length mapX) \<and> ?P y x < int (length mapY)"
    if "0 \<le> x" "x < regionW" "0 \<le> y" "y < regionH" for x y
  proof -
    have g: "0 \<le> startX + x" "startX + x < totalW" "0 \<le> startY + y" "startY + y < totalH"
      using that st by auto
    then have "0 < totalW * totalH" by simp
    then show ?thesis using idx_bound[OF g] lm by simp
  qed
  have orange: "0 \<le> (y * regionW + x) * 4 \<and> (y * regionW + x) * 4 + 3 < int ?n"
    if "0 \<le> x" "x < regionW" "0 \<le> y" "y < regionH" for x y
  proof -
    have "0 < 4 * regionW * regionH" using that by simp
    then have n: "int ?n = 4 * regionW * regionH" using lo by simp
    have a: "0 \<le> y * regionW + x" "y * regionW + x < regionW * regionH" using idx_bound[OF that] by auto
    then have "(y * regionW + x) * 4 + 3 < 4 * regionW * regionH" by simp
    then show ?thesis using a n by simp
  qed
  have "\<exists>t. renderRegionFromMapsRef out startX startY regionW regionH totalW totalH
                   mapX mapY px ow oh = Some t
          \<and> ?Inv t \<and> (\<forall>c\<in>set (List.product [0..regionH - 1] [0..regionW - 1]). ?Q c t)"
    unfolding renderRegionFromMapsRef_def for_loop_product
  proof (rule for_loop_establish[where Inv = ?Inv and Q = ?Q])
    show "distinct (List.product [0..regionH - 1] [0..regionW - 1])" by (rule cells_distinct)
    show "?Inv out" by simp
  next
    fix c :: "int \<times> int" and t :: "byte list"
    assume c: "c \<in> set (List.product [0..regionH - 1] [0..regionW - 1])" and inv: "?Inv t"
    obtain y x where cx: "c = (y, x)" by (cases c)
    have r: "0 \<le> x" "x < regionW" "0 \<le> y" "y < regionH" using c cx by auto
    define b where "b = (y * regionW + x) * 4"
    have b: "0 \<le> b" "b + 3 < int (length t)" using orange[OF r] inv by (simp_all add: b_def)
    from prange[OF r] have p: "0 \<le> ?P y x" "?P y x < int (length mapX)" "?P y x < int (length mapY)"
      by auto
    from renderPixel_eq[OF o p, of regionW t]
    obtain r0 r1 r2 r3 where rs:
      "resampleChannel px ow oh (mapX ! nat (?P y x)) (mapY ! nat (?P y x)) 0 = Some r0"
      "resampleChannel px ow oh (mapX ! nat (?P y x)) (mapY ! nat (?P y x)) 1 = Some r1"
      "resampleChannel px ow oh (mapX ! nat (?P y x)) (mapY ! nat (?P y x)) 2 = Some r2"
      "resampleChannel px ow oh (mapX ! nat (?P y x)) (mapY ! nat (?P y x)) 3 = Some r3"
      and rp: "renderPixel startX startY regionW totalW mapX mapY px ow oh y x t =
        Some (arr_set (arr_set (arr_set (arr_set t (b + 0) (toUint8Clamp r0))
                (b + 1) (toUint8Clamp r1)) (b + 2) (toUint8Clamp r2)) (b + 3) (toUint8Clamp r3))"
      unfolding b_def by blast
    define t' where "t' = arr_set (arr_set (arr_set (arr_set t (b + 0) (toUint8Clamp r0))
                (b + 1) (toUint8Clamp r1)) (b + 2) (toUint8Clamp r2)) (b + 3) (toUint8Clamp r3)"
    note fs = four_sets[OF b, where ?v0.0 = "toUint8Clamp r0" and ?v1.0 = "toUint8Clamp r1"
        and ?v2.0 = "toUint8Clamp r2" and ?v3.0 = "toUint8Clamp r3", folded t'_def]
    have q: "?Q (y, x) t'"
    proof (clarify)
      fix c :: int assume "0 \<le> c" "c < 4"
      then consider "c = 0" | "c = 1" | "c = 2" | "c = 3" by linarith
      then show "\<exists>r. resampleChannel px ow oh (mapX ! nat (?P y x)) (mapY ! nat (?P y x)) c = Some r
               \<and> t' ! nat ((y * regionW + x) * 4 + c) = toUint8Clamp r"
        using rs fs(2-5) unfolding b_def[symmetric] by cases auto
    qed
    show "\<exists>t'. (case c of (y, x) \<Rightarrow>
              renderPixel startX startY regionW totalW mapX mapY px ow oh y x) t = Some t'
            \<and> ?Inv t' \<and> ?Q c t'"
      using rp q fs(1) inv unfolding cx t'_def[symmetric] by auto
  next
    fix c c' :: "int \<times> int" and t t' :: "byte list"
    assume c: "c \<in> set (List.product [0..regionH - 1] [0..regionW - 1])"
      and c': "c' \<in> set (List.product [0..regionH - 1] [0..regionW - 1])"
      and ne: "c \<noteq> c'" and inv: "?Inv t" and q: "?Q c t"
      and step: "(case c' of (y, x) \<Rightarrow>
              renderPixel startX startY regionW totalW mapX mapY px ow oh y x) t = Some t'"
    obtain y x where cx: "c = (y, x)" by (cases c)
    obtain y' x' where cx': "c' = (y', x')" by (cases c')
    have r: "0 \<le> x" "x < regionW" "0 \<le> y" "y < regionH" using c cx by auto
    have r': "0 \<le> x'" "x' < regionW" "0 \<le> y'" "y' < regionH" using c' cx' by auto
    define a where "a = y * regionW + x"
    define a' where "a' = y' * regionW + x'"
    have aa: "a \<noteq> a'"
    proof
      assume "a = a'"
      with idx_inj[OF r(1,2) r'(1,2)] show False using ne cx cx' by (simp add: a_def a'_def)
    qed
    have b': "0 \<le> a' * 4" "a' * 4 + 3 < int (length t)"
      using orange[OF r'] inv by (simp_all add: a'_def)
    have b: "0 \<le> a * 4" "a * 4 + 3 < int (length t)"
      using orange[OF r] inv by (simp_all add: a_def)
    from prange[OF r'] have p: "0 \<le> ?P y' x'" "?P y' x' < int (length mapX)"
      "?P y' x' < int (length mapY)"
      by auto
    from renderPixel_eq[OF o p, of regionW t] step
    obtain v0 v1 v2 v3 where t': "t' = arr_set (arr_set (arr_set (arr_set t (a' * 4 + 0) v0)
                (a' * 4 + 1) v1) (a' * 4 + 2) v2) (a' * 4 + 3) v3"
      unfolding cx' a'_def by auto
    note fs = four_sets(6)[OF b', where ?v0.0 = v0 and ?v1.0 = v1 and ?v2.0 = v2 and ?v3.0 = v3,
        folded t']
    have keep: "t' ! nat (a * 4 + k) = t ! nat (a * 4 + k)" if "0 \<le> k" "k < 4" for k
    proof (rule fs)
      show "nat (a * 4 + k) < length t" using b that by linarith
      show "int (nat (a * 4 + k)) < a' * 4 \<or> a' * 4 + 3 < int (nat (a * 4 + k))"
        using aa b that by linarith
    qed
    have keep': "t' ! nat ((y * regionW + x) * 4 + k) = t ! nat ((y * regionW + x) * 4 + k)"
      if "0 \<le> k" "k < 4" for k
      using keep[OF that] unfolding a_def .
    show "?Q c t'"
      using q keep' unfolding cx by simp
  qed
  then obtain t where t: "renderRegionFromMapsRef out startX startY regionW regionH totalW totalH
                   mapX mapY px ow oh = Some t" "?Inv t"
      "\<forall>c\<in>set (List.product [0..regionH - 1] [0..regionW - 1]). ?Q c t"
    by blast
  have "\<exists>r. resampleChannel px ow oh (mapX ! nat (?P y x)) (mapY ! nat (?P y x)) c = Some r
               \<and> t ! nat ((y * regionW + x) * 4 + c) = toUint8Clamp r"
    if "0 \<le> x" "x < regionW" "0 \<le> y" "y < regionH" "0 \<le> c" "c < 4" for x y c
  proof -
    have "(y, x) \<in> set (List.product [0..regionH - 1] [0..regionW - 1])" using that by auto
    with t(3) have "?Q (y, x) t" by blast
    then show ?thesis using that(5,6) by simp
  qed
  with t(1,2) show ?thesis by blast
qed

lemma cell_decompose:
  fixes k w h :: int
  assumes "0 < w" "0 \<le> k" "k < w * h"
  shows "\<exists>x y. 0 \<le> x \<and> x < w \<and> 0 \<le> y \<and> y < h \<and> k = y * w + x"
proof (intro exI conjI)
  show "0 \<le> k mod w" "k mod w < w" using assms(1) by simp_all
  show "0 \<le> k div w" using assms(1,2) by (simp add: pos_imp_zdiv_nonneg_iff)
  show "k div w < h"
  proof (rule ccontr)
    assume "\<not> k div w < h"
    then have "h \<le> k div w" by simp
    then have "h * w \<le> k div w * w" using assms(1) by (intro mult_right_mono) auto
    moreover have "k div w * w + k mod w = k" by simp
    moreover have "0 \<le> k mod w" using assms(1) by simp
    ultimately have "h * w \<le> k" by linarith
    then show False using assms(3) by (simp add: mult.commute)
  qed
  show "k = k div w * w + k mod w" by simp
qed

lemma pixel_list_eq:
  fixes a b :: "'a list"
  assumes la: "length a = nat (4 * w * h)" and lb: "length b = nat (4 * w * h)" and w: "0 < w"
    and eq: "\<And>x y c. 0 \<le> x \<Longrightarrow> x < w \<Longrightarrow> 0 \<le> y \<Longrightarrow> y < h \<Longrightarrow> 0 \<le> c \<Longrightarrow> c < 4
                \<Longrightarrow> a ! nat ((y * w + x) * 4 + c) = b ! nat ((y * w + x) * 4 + c)"
  shows "a = b"
proof (rule grid_list_eq[of a 4 "w * h" b])
  show "length a = nat (4 * (w * h))" using la by (simp add: mult.assoc)
  show "length b = nat (4 * (w * h))" using lb by (simp add: mult.assoc)
  show "(0 :: int) \<le> 4" by simp
next
  fix c k :: int assume c: "0 \<le> c" "c < 4" and k: "0 \<le> k" "k < w * h"
  from cell_decompose[OF w k] obtain x y where xy: "0 \<le> x" "x < w" "0 \<le> y" "y < h" "k = y * w + x"
    by blast
  from eq[OF xy(1-4) c] show "a ! nat (k * 4 + c) = b ! nat (k * 4 + c)" unfolding xy(5) .
qed

lemma render_identity:
  assumes wh: "0 < w" "0 < h" and lp: "length px = nat (4 * w * h)"
    and lm: "length idX = nat (w * h)" "length idY = nat (w * h)"
    and ident: "\<And>x y. 0 \<le> x \<Longrightarrow> x < w \<Longrightarrow> 0 \<le> y \<Longrightarrow> y < h \<Longrightarrow>
                  idX ! nat (y * w + x) = of_int x \<and> idY ! nat (y * w + x) = of_int y"
    and lo: "length out = nat (4 * w * h)"
  shows "renderRegionFromMapsRef out 0 0 w h w h idX idY px w h = Some px"
proof -
  from renderRegion_spec[OF wh lp _ _ _ _ lm lo, of 0 0]
  obtain out' where r: "renderRegionFromMapsRef out 0 0 w h w h idX idY px w h = Some out'"
    "length out' = length out"
    and cells: "\<And>x y c. 0 \<le> x \<Longrightarrow> x < w \<Longrightarrow> 0 \<le> y \<Longrightarrow> y < h \<Longrightarrow> 0 \<le> c \<Longrightarrow> c < 4 \<Longrightarrow>
           (\<exists>r. resampleChannel px w h (idX ! nat ((0 + y) * w + (0 + x)))
                   (idY ! nat ((0 + y) * w + (0 + x))) c = Some r
               \<and> out' ! nat ((y * w + x) * 4 + c) = toUint8Clamp r)"
    by auto
  have "out' = px"
  proof (rule pixel_list_eq[of _ w h])
    show "length out' = nat (4 * w * h)" using r(2) lo by simp
    show "length px = nat (4 * w * h)" by (rule lp)
    show "0 < w" by (rule wh)
  next
    fix x y c :: int assume g: "0 \<le> x" "x < w" "0 \<le> y" "y < h" and c: "0 \<le> c" "c < 4"
    from cells[OF g c] obtain r where
      r: "resampleChannel px w h (idX ! nat (y * w + x)) (idY ! nat (y * w + x)) c = Some r"
        "out' ! nat ((y * w + x) * 4 + c) = toUint8Clamp r"
      by auto
    from ident[OF g] r(1) resampleChannel_at_pixel[OF g lp c]
    have "r = real (unat (px ! nat ((y * w + x) * 4 + c)))" by simp
    then show "out' ! nat ((y * w + x) * 4 + c) = px ! nat ((y * w + x) * 4 + c)"
      using r(2) by (simp only: toUint8Clamp_byte)
  qed
  with r(1) show ?thesis by simp
qed

lemma render_identity_engine:
  assumes img: "imageData layer = Some img"
    and wf: "length px = 4 * width img * height img" "0 < width img" "0 < height img"
    and lo: "length outputBuffer = 4 * width img * height img"
  shows "\<exists>idX idY.
      initEngine layer eng =
           \<lparr>mapXRef = Some idX, mapYRef = Some idY, activeOriginalDataRef = Some img,
            loadedLayerIdRef = Some (layer_id layer)\<rparr>
    \<and> renderRegionFromMapsRef outputBuffer 0 0 (int (width img)) (int (height img))
          (int (width img)) (int (height img)) idX idY px
          (int (width img)) (int (height img)) = Some px"
proof -
  let ?w = "int (width img)" and ?h = "int (height img)"
  from initEngine_identity[OF img, of eng]
  obtain idX idY where ie: "initEngine layer eng =
           \<lparr>mapXRef = Some idX, mapYRef = Some idY, activeOriginalDataRef = Some img,
            loadedLayerIdRef = Some (layer_id layer)\<rparr>"
    and len: "length idX = width img * height img" "length idY = width img * height img"
    and ident: "\<And>x y. 0 \<le> x \<Longrightarrow> x < ?w \<Longrightarrow> 0 \<le> y \<Longrightarrow> y < ?h \<Longrightarrow>
             idX ! nat (y * ?w + x) = of_int x \<and> idY ! nat (y * ?w + x) = of_int y"
    by blast
  have wh: "0 < ?w" "0 < ?h" using wf by simp_all
  have lp: "length px = nat (4 * ?w * ?h)" using wf(1) by (simp add: nat_mult_distrib)
  have lm: "length idX = nat (?w * ?h)" "length idY = nat (?w * ?h)"
    using len by (simp_all add: nat_mult_distrib)
  have "renderRegionFromMapsRef outputBuffer 0 0 ?w ?h ?w ?h idX idY px ?w ?h = Some px"
  proof (rule render_identity[OF wh lp lm ident])
    show "length outputBuffer = nat (4 * ?w * ?h)" using lo by (simp add: nat_mult_distrib)
  qed
  with ie show ?thesis by blast
qed

lemma bake_identity:
  assumes img: "imageData layer = Some img"
    and wf: "data img < next_ref st" "length (buffers st (data img)) = 4 * width img * height img"
      "0 < width img" "0 < height img"
    and ctx: "context2d br"
  shows "bakeCurrentWarp br (initEngine layer eng) st =
      Some (Some \<lparr>data = next_ref st, width = width img, height = height img\<rparr>,
            st\<lparr>buffers := (buffers st)(next_ref st := buffers st (data img)),
               next_ref := Suc (next_ref st)\<rparr>)"
proof -
  let ?px = "buffers st (data img)"
  define zeros :: "byte list" where "zeros = replicate (4 * width img * height img) 0"
  have lz: "length zeros = 4 * width img * height img" by (simp add: zeros_def)
  from render_identity_engine[OF img wf(2,3,4) lz, of eng]
  obtain idX idY where ie: "initEngine layer eng =
           \<lparr>mapXRef = Some idX, mapYRef = Some idY, activeOriginalDataRef = Some img,
            loadedLayerIdRef = Some (layer_id layer)\<rparr>"
    and render: "renderRegionFromMapsRef zeros 0 0 (int (width img)) (int (height img))
          (int (width img)) (int (height img)) idX idY ?px
          (int (width img)) (int (height img)) = Some ?px"
    by blast
  define st1 where "st1 = st\<lparr>buffers := (buffers st)(next_ref st := zeros),
                              next_ref := Suc (next_ref st)\<rparr>"
  define out where "out = \<lparr>data = next_ref st, width = width img, height = height img\<rparr>"
  have cid: "createImageData (width img) (height img) st = (out, st1)"
    by (simp add: createImageData_def newUint8ClampedArray_def out_def st1_def zeros_def)
  have b1: "buffers st1 (data out) = zeros" "buffers st1 (data img) = ?px"
    using wf(1) by (simp_all add: st1_def out_def)
  have "bakeCurrentWarp br (initEngine layer eng) st
                = Some (Some out, st1\<lparr>buffers := (buffers st1)(data out := ?px)\<rparr>)"
    unfolding bakeCurrentWarp_def ie
    by (simp add: ctx cid b1 Let_def render)
  also have "st1\<lparr>buffers := (buffers st1)(data out := ?px)\<rparr>
           = st\<lparr>buffers := (buffers st)(next_ref st := ?px), next_ref := Suc (next_ref st)\<rparr>"
    by (simp add: st1_def out_def)
  finally show ?thesis by (simp add: out_def)
qed

text \<open>
  Claim C2. Let the engine be freshly initialised for a layer whose raster is well formed
  (its buffer is allocated and has four bytes for each of its \<open>width \<times> height\<close> pixels). Then
  renderRegionFromMapsRef over the whole raster, through the identity maps of initEngine
  and into any output buffer of the raster's size, returns exactly the original pixels,
  every channel of every pixel; and bakeCurrentWarp, given a 2d context, returns a new
  ImageData of the same dimensions whose fresh buffer holds exactly the original pixels,
  the original buffer being left as it was.
\<close>

theorem identity_map_reproduces_raster:
  assumes img: "imageData layer = Some img"
    and wf: "data img < next_ref st" "length (buffers st (data img)) = 4 * width img * height img"
      "0 < width img" "0 < height img"
    and ctx: "context2d br"
    and lo: "length outputBuffer = 4 * width img * height img"
  shows "\<exists>idX idY out st'.
      mapXRef (initEngine layer eng) = Some idX \<and> mapYRef (initEngine layer eng) = Some idY
    \<and> renderRegionFromMapsRef outputBuffer 0 0 (int (width img)) (int (height img))
          (int (width img)) (int (height img)) idX idY (buffers st (data img))
          (int (width img)) (int (height img)) = Some (buffers st (data img))
    \<and> bakeCurrentWarp br (initEngine layer eng) st = Some (Some out, st')
    \<and> width out = width img \<and> height out = height img
    \<and> buffers st' (data out) = buffers st (data img)
    \<and> data out \<noteq> data img \<and> buffers st' (data img) = buffers st (data img)"
proof -
  let ?px = "buffers st (data img)"
  from render_identity_engine[OF img wf(2,3,4) lo, of eng]
  obtain idX idY where ie: "initEngine layer eng =
           \<lparr>mapXRef = Some idX, mapYRef = Some idY, activeOriginalDataRef = Some img,
            loadedLayerIdRef = Some (layer_id layer)\<rparr>"
    and render: "renderRegionFromMapsRef outputBuffer 0 0 (int (width img)) (int (height img))
          (int (width img)) (int (height img)) idX idY ?px
          (int (width img)) (int (height img)) = Some ?px"
    by blast
  define out where "out = \<lparr>data = next_ref st, width = width img, height = height img\<rparr>"
  define st' where "st' = st\<lparr>buffers := (buffers st)(next_ref st := ?px),
                              next_ref := Suc (next_ref st)\<rparr>"
  have bake: "bakeCurrentWarp br (initEngine layer eng) st = Some (Some out, st')"
    unfolding out_def st'_def by (rule bake_identity[OF img wf ctx])
  show ?thesis
  proof (intro exI conjI)
    show "mapXRef (initEngine layer eng) = Some idX" "mapYRef (initEngine layer eng) = Some idY"
      by (simp_all add: ie)
    show "renderRegionFromMapsRef outputBuffer 0 0 (int (width img)) (int (height img))
          (int (width img)) (int (height img)) idX idY ?px
          (int (width img)) (int (height img)) = Some ?px"
      by (rule render)
    show "bakeCurrentWarp br (initEngine layer eng) st = Some (Some out, st')" by (rule bake)
    show "width out = width img" "height out = height img" by (simp_all add: out_def)
    show "buffers st' (data out) = ?px" by (simp add: st'_def out_def)
    show "data out \<noteq> data img" using wf(1) by (simp add: out_def)
    show "buffers st' (data img) = ?px" using wf(1) by (simp add: st'_def)
  qed
qed

theorem identity_map_reproduces_raster_witness:
  "imageData example_layer = Some example_image
   \<and> data example_image < next_ref example_store
   \<and> length (buffers example_store (data example_image))
        = 4 * width example_image * height example_image
   \<and> 0 < width example_image \<and> 0 < height example_image
   \<and> context2d example_browser
   \<and> (\<exists>idX idY out st'.
      mapXRef (initEngine example_layer example_engine) = Some idX
    \<and> mapYRef (initEngine example_layer example_engine) = Some idY
    \<and> renderRegionFromMapsRef (replicate 16 0) 0 0 (int (width example_image))
          (int (height example_image)) (int (width example_image)) (int (height example_image))
          idX idY (buffers example_store (data example_image))
          (int (width example_image)) (int (height example_image))
        = Some (buffers example_store (data example_image))
    \<and> bakeCurrentWarp example_browser (initEngine example_layer example_engine) example_store
        = Some (Some out, st')
    \<and> width out = width example_image \<and> height out = height example_image
    \<and> buffers st' (data out) = buffers example_store (data example_image)
    \<and> data out \<noteq> data example_image
    \<and> buffers st' (data example_image) = buffers example_store (data example_image))"
proof -
  have h: "imageData example_layer = Some example_image"
    "data example_image < next_ref example_store"
    "length (buffers example_store (data example_image))
        = 4 * width example_image * height example_image"
    "0 < width example_image" "0 < height example_image" "context2d example_browser"
    "length (replicate 16 (0 :: byte)) = 4 * width example_image * height example_image"
    by (simp_all add: example_layer_def example_image_def example_store_def example_browser_def)
  from identity_map_reproduces_raster[OF h, of example_engine] h show ?thesis by blast
qed

text \<open>
  Claim C5. The scenario of the specification: a \<open>4 \<times> 4\<close> layer with its identity map, and one
  WARP stroke with centre \<open>(2, 2)\<close>, local radius 2 (brush size 4 at zoom 1 and scale 1),
  strength 1 and delta \<open>(1, 0)\<close>, that is, from \<open>(1, 2)\<close> to \<open>(2, 2)\<close>. The map entry of
  pixel \<open>(2, 2)\<close>, at index \<open>2 * 4 + 2 = 10\<close>, was \<open>(2, 2)\<close> and becomes \<open>(1, 2)\<close>; the entry of
  pixel \<open>(0, 0)\<close> is \<open>(0, 0)\<close> before and after.
\<close>

theorem warp_scenario_4x4:
  "\<exists>idX idY mapX' mapY'.
      mapXRef (initEngine scenario_layer example_engine) = Some idX
    \<and> mapYRef (initEngine scenario_layer example_engine) = Some idY
    \<and> idX ! 10 = 2 \<and> idY ! 10 = 2 \<and> idX ! 0 = 0 \<and> idY ! 0 = 0
    \<and> localRadiusOf (example_brush 1) 1 [scenario_layer] ''a'' = 2
    \<and> applyDistortion WARP (example_brush 1) 1 [scenario_layer] ''a''
          (initEngine scenario_layer example_engine) 2 2 1 2
        = Some ((initEngine scenario_layer example_engine)\<lparr>mapXRef := Some mapX', mapYRef := Some mapY'\<rparr>)
    \<and> mapX' ! 10 = 1 \<and> mapY' ! 10 = 2 \<and> mapX' ! 0 = 0 \<and> mapY' ! 0 = 0"
proof -
  define img where "img = \<lparr>data = 0 :: nat, width = 4, height = 4\<rparr>"
  define eng where "eng = initEngine scenario_layer example_engine"
  define bs where "bs = example_brush 1"
  have im: "imageData scenario_layer = Some img"
    by (simp add: scenario_layer_def img_def)
  from initEngine_identity[OF im, of example_engine]
  obtain idX idY where ie: "eng =
           \<lparr>mapXRef = Some idX, mapYRef = Some idY, activeOriginalDataRef = Some img,
            loadedLayerIdRef = Some (layer_id scenario_layer)\<rparr>"
    and len: "length idX = 16" "length idY = 16"
    and ident: "\<And>x y. 0 \<le> x \<Longrightarrow> x < 4 \<Longrightarrow> 0 \<le> y \<Longrightarrow> y < 4 \<Longrightarrow>
             idX ! nat (y * 4 + x) = of_int x \<and> idY ! nat (y * 4 + x) = of_int y"
    unfolding eng_def by (auto simp: img_def)
  have e: "mapXRef eng = Some idX" "mapYRef eng = Some idY" "activeOriginalDataRef eng = Some img"
    by (simp_all add: ie)
  have l: "length idX = width img * height img" "length idY = width img * height img"
    using len by (simp_all add: img_def)
  have lm: "length idX = nat (4 * 4)" "length idY = nat (4 * 4)" using len by simp_all
  have R: "localRadiusOf bs 1 [scenario_layer] ''a'' = 2"
    by (simp add: localRadiusOf_def bs_def example_brush_def scenario_layer_def example_layer_def)
  have wd: "int (width img) = 4" "int (height img) = 4" by (simp_all add: img_def)
  note core = applyDistortion_cells[OF e l, of WARP bs 1 "[scenario_layer]" "''a''" 2 2 1 2,
      unfolded R wd]
  from core obtain mapX' mapY' where a:
    "applyDistortion WARP bs 1 [scenario_layer] ''a'' eng 2 2 1 2
        = Some (eng\<lparr>mapXRef := Some mapX', mapYRef := Some mapY'\<rparr>)"
    and c: "\<And>gx gy. 0 \<le> gx \<Longrightarrow> gx < 4 \<Longrightarrow> 0 \<le> gy \<Longrightarrow> gy < 4 \<Longrightarrow>
         (if inBrushBox 2 2 2 4 4 gx gy
          then distortCell WARP (strength bs) 2 2 2 (2 - 1) (2 - 2) idX idY 4 4 gx gy
                 = Some (mapX' ! nat (gy * 4 + gx), mapY' ! nat (gy * 4 + gx))
          else mapX' ! nat (gy * 4 + gx) = idX ! nat (gy * 4 + gx)
             \<and> mapY' ! nat (gy * 4 + gx) = idY ! nat (gy * 4 + gx))"
    by blast
  have s: "strength bs = 1" by (simp add: bs_def example_brush_def)
  \<comment> \<open>pixel (2, 2): power 1, lookup point (1, 2)\<close>
  have in22: "inBrushBox 2 2 2 4 4 2 2" by (simp add: inBrushBox_def)
  have d22: "(of_int 2 - 2) * (of_int 2 - 2) + (of_int 2 - 2) * (of_int 2 - (2 :: real)) < 2 * 2"
    by simp
  have lk: "sourceLookup WARP 2 2 (2 - 1) (2 - 2)
              (brushPower 2 1 ((of_int 2 - 2) * (of_int 2 - 2) + (of_int 2 - 2) * (of_int 2 - 2))) 2 2
            = (of_int 1, of_int 2)"
    by (simp add: sourceLookup_def brushPower_def)
  from distortCell_inside[OF _ _ lm d22, of WARP 1 "2 - 1" "2 - 2"]
  obtain vx vy where v: "distortCell WARP 1 2 2 2 (2 - 1) (2 - 2) idX idY 4 4 2 2 = Some (vx, vy)"
    "sample idX 4 4 (of_int 1) (of_int 2) = Some vx" "sample idY 4 4 (of_int 1) (of_int 2) = Some vy"
    unfolding lk by auto
  have "vx = idX ! nat (2 * 4 + 1)" using v(2) sample_at_pixel[of 1 4 2 4 idX] lm by simp
  then have vx: "vx = 1" using ident[of 1 2] by simp
  have "vy = idY ! nat (2 * 4 + 1)" using v(3) sample_at_pixel[of 1 4 2 4 idY] lm by simp
  then have vy: "vy = 2" using ident[of 1 2] by simp
  have new22: "mapX' ! 10 = 1" "mapY' ! 10 = 2"
    using c[of 2 2] in22 v(1) s vx vy by simp_all
  \<comment> \<open>pixel (0, 0): squared distance 8, not below the squared radius 4\<close>
  have d00: "\<not> (of_int 0 - 2) * (of_int 0 - 2) + (of_int 0 - 2) * (of_int 0 - (2 :: real)) < 2 * 2"
    by simp
  have out00: "distortCell WARP (strength bs) 2 2 2 (2 - 1) (2 - 2) idX idY 4 4 0 0
                 = Some (idX ! nat (0 * 4 + 0), idY ! nat (0 * 4 + 0))"
    by (rule distortCell_outside[OF _ _ _ _ lm d00]) simp_all
  have new00: "mapX' ! 0 = idX ! 0" "mapY' ! 0 = idY ! 0"
    using c[of 0 0] out00 by (simp_all split: if_splits)
  have old: "idX ! 10 = 2" "idY ! 10 = 2" "idX ! 0 = 0" "idY ! 0 = 0"
    using ident[of 2 2] ident[of 0 0] by simp_all
  show ?thesis
    using e(1,2) old R a new22 new00 unfolding eng_def bs_def by auto
qed

lemma layerRefs_Cons:
  "layerRefs (l # ls) = (case imageData l of None \<Rightarrow> [] | Some img \<Rightarrow> [data img]) @ layerRefs ls"
  by (simp add: layerRefs_def)

lemma layerRefs_Nil [simp]: "layerRefs [] = []"
  by (simp add: layerRefs_def)

lemma in_layerRefs:
  "l \<in> set ls \<Longrightarrow> imageData l = Some img \<Longrightarrow> data img \<in> set (layerRefs ls)"
  by (force simp: layerRefs_def)

lemma deepEqual_refl_ext:
  assumes "\<forall>r\<in>set (layerRefs ls). buffers st' r = buffers st r"
  shows "deepEqual st' ls st ls"
proof -
  have "pixelsOf st' l = pixelsOf st l" if "l \<in> set ls" for l
  proof (cases "imageData l")
    case None
    then show ?thesis by (simp add: pixelsOf_def)
  next
    case (Some img)
    from in_layerRefs[OF that Some] assms have "buffers st' (data img) = buffers st (data img)"
      by blast
    then show ?thesis by (simp add: pixelsOf_def Some)
  qed
  then show ?thesis by (simp add: deepEqual_def)
qed

lemma deepEqual_trans:
  "deepEqual a xs b ys \<Longrightarrow> deepEqual b ys c zs \<Longrightarrow> deepEqual a xs c zs"
  by (simp add: deepEqual_def)

lemma cloneLayers_spec:
  assumes "\<forall>r\<in>set (layerRefs ls). r < next_ref st"
  shows "\<exists>ls' st'. cloneLayers ls st = (ls', st')
      \<and> deepEqual st' ls' st ls
      \<and> next_ref st \<le> next_ref st'
      \<and> (\<forall>r. r < next_ref st \<longrightarrow> buffers st' r = buffers st r)
      \<and> (\<forall>r\<in>set (layerRefs ls'). next_ref st \<le> r \<and> r < next_ref st')
      \<and> distinct (layerRefs ls')"
  using assms
proof (induction ls arbitrary: st)
  case Nil
  then show ?case by (simp add: deepEqual_def)
next
  case (Cons l ls)
  show ?case
  proof (cases "imageData l")
    case None
    have "\<forall>r\<in>set (layerRefs ls). r < next_ref st"
      using Cons.prems by (simp add: layerRefs_Cons None)
    from Cons.IH[OF this] obtain ls' st' where r: "cloneLayers ls st = (ls', st')"
      "deepEqual st' ls' st ls" "next_ref st \<le> next_ref st'"
      "\<forall>r. r < next_ref st \<longrightarrow> buffers st' r = buffers st r"
      "\<forall>r\<in>set (layerRefs ls'). next_ref st \<le> r \<and> r < next_ref st'"
      "distinct (layerRefs ls')"
      by blast
    have c: "cloneLayers (l # ls) st = (l\<lparr>imageData := None\<rparr> # ls', st')"
      by (simp add: None r(1))
    have d: "deepEqual st' (l\<lparr>imageData := None\<rparr> # ls') st (l # ls)"
      using r(2) None by (simp add: deepEqual_def pixelsOf_def)
    show ?thesis
      using c d r(3-6) by (simp add: layerRefs_Cons)
  next
    case (Some img)
    define st1 where "st1 = st\<lparr>buffers := (buffers st)(next_ref st := buffers st (data img)),
                                next_ref := Suc (next_ref st)\<rparr>"
    have alloc: "newUint8ClampedArray (buffers st (data img)) st = (next_ref st, st1)"
      by (simp add: newUint8ClampedArray_def st1_def)
    have valid: "data img < next_ref st" using Cons.prems by (simp add: layerRefs_Cons Some)
    have keep1: "buffers st1 r = buffers st r" if "r < next_ref st" for r
      using that by (simp add: st1_def)
    have n1: "next_ref st1 = Suc (next_ref st)" by (simp add: st1_def)
    have "\<forall>r\<in>set (layerRefs ls). r < next_ref st1"
      using Cons.prems by (auto simp: layerRefs_Cons Some n1)
    from Cons.IH[OF this] obtain ls' st' where r: "cloneLayers ls st1 = (ls', st')"
      "deepEqual st' ls' st1 ls" "next_ref st1 \<le> next_ref st'"
      "\<forall>r. r < next_ref st1 \<longrightarrow> buffers st' r = buffers st1 r"
      "\<forall>r\<in>set (layerRefs ls'). next_ref st1 \<le> r \<and> r < next_ref st'"
      "distinct (layerRefs ls')"
      by blast
    define l' where "l' = l\<lparr>imageData := Some \<lparr>data = next_ref st, width = width img, height = height img\<rparr>\<rparr>"
    have c: "cloneLayers (l # ls) st = (l' # ls', st')"
      by (simp add: Some alloc r(1) l'_def)
    have "deepEqual st1 ls st ls"
      by (rule deepEqual_refl_ext) (use Cons.prems keep1 in \<open>auto simp: layerRefs_Cons Some\<close>)
    with r(2) have tl: "deepEqual st' ls' st ls" by (rule deepEqual_trans)
    have "buffers st' (next_ref st) = buffers st1 (next_ref st)" using r(4) by (simp add: n1)
    then have hd: "buffers st' (next_ref st) = buffers st (data img)" by (simp add: st1_def)
    have d: "deepEqual st' (l' # ls') st (l # ls)"
      using tl hd Some by (simp add: deepEqual_def pixelsOf_def l'_def)
    have keep: "\<forall>r. r < next_ref st \<longrightarrow> buffers st' r = buffers st r"
      using r(4) keep1 by (simp add: n1)
    have refs: "layerRefs (l' # ls') = next_ref st # layerRefs ls'"
      by (simp add: layerRefs_Cons l'_def)
    have rng: "\<forall>r\<in>set (layerRefs (l' # ls')). next_ref st \<le> r \<and> r < next_ref st'"
      using r(3,5) by (auto simp: refs n1)
    have dist: "distinct (layerRefs (l' # ls'))"
      using r(5,6) by (auto simp: refs n1)
    have "next_ref st \<le> next_ref st'" using r(3) by (simp add: n1)
    with c d keep rng dist show ?thesis by blast
  qed
qed

lemma cloneLayers_next_ref: "next_ref st \<le> next_ref (snd (cloneLayers ls st))"
proof (induction ls arbitrary: st)
  case Nil
  then show ?case by simp
next
  case (Cons l ls)
  show ?case
  proof (cases "imageData l")
    case None
    then show ?thesis using Cons.IH[of st] by (simp add: split_def Let_def)
  next
    case (Some img)
    have "Suc (next_ref st) \<le> next_ref (snd (cloneLayers ls
            (st\<lparr>buffers := (buffers st)(next_ref st := buffers st (data img)),
                next_ref := Suc (next_ref st)\<rparr>)))"
      using Cons.IH[of "st\<lparr>buffers := (buffers st)(next_ref st := buffers st (data img)),
                next_ref := Suc (next_ref st)\<rparr>"] by simp
    then show ?thesis by (simp add: Some newUint8ClampedArray_def split_def Let_def)
  qed
qed

lemma commit_next_ref: "next_ref st \<le> next_ref (snd (commitToHistory c ls aid app st))"
  using cloneLayers_next_ref[of st ls] by (simp add: commitToHistory_def Let_def split_def)

lemma slice0_take: "0 \<le> e \<Longrightarrow> slice0 xs e = take (nat e) xs"
  by (simp add: slice0_def Let_def min_def)

lemma commit_at_tip:
  assumes ok: "history_ok app" and tip: "at_tip app"
    and cl: "cloneLayers newLayers st = (cloned, st')"
  shows "commitToHistory (historyIndex app) newLayers newActiveId app st =
      (app\<lparr>history := (if length (history app) = 20 then tl (history app) else history app)
                          @ [\<lparr>layers = cloned, activeLayerId = newActiveId\<rparr>],
            historyIndex := (if length (history app) = 20 then 19 else int (length (history app)))\<rparr>,
       st')"
proof -
  have idx: "historyIndex app + 1 = int (length (history app))" using tip by (simp add: at_tip_def)
  have len: "length (history app) \<le> 20" using ok by (simp add: history_ok_def HISTORY_MAX_STEPS_def)
  have sl: "slice0 (history app) (historyIndex app + 1) = history app"
    by (simp add: slice0_take idx)
  have ne: "length (history app) = 20 \<Longrightarrow> history app \<noteq> []" by auto
  show ?thesis
    unfolding commitToHistory_def sl Let_def cl
    using len idx ne by (auto simp: HISTORY_MAX_STEPS_def)
qed

lemma commit_general:
  assumes ok: "history_ok app" and cl: "cloneLayers newLayers st = (cloned, st')"
  shows "commitToHistory (historyIndex app) newLayers newActiveId app st =
      (app\<lparr>history := (if historyIndex app = 19 then tl (history app)
                         else take (nat (historyIndex app + 1)) (history app))
                          @ [\<lparr>layers = cloned, activeLayerId = newActiveId\<rparr>],
            historyIndex := (if historyIndex app = 19 then 19 else historyIndex app + 1)\<rparr>,
       st')"
proof -
  have b: "- 1 \<le> historyIndex app" "historyIndex app < int (length (history app))"
    "length (history app) \<le> 20"
    using ok by (simp_all add: history_ok_def HISTORY_MAX_STEPS_def)
  have sl: "slice0 (history app) (historyIndex app + 1) = take (nat (historyIndex app + 1)) (history app)"
    using b by (simp add: slice0_take)
  have full: "take (nat (historyIndex app + 1)) (history app) = history app \<and> history app \<noteq> []"
    if "historyIndex app = 19"
    using that b by auto
  have lt: "int (length (take (nat (historyIndex app + 1)) (history app))) = historyIndex app + 1"
    using b by simp
  show ?thesis
    unfolding commitToHistory_def sl Let_def cl
    using b full lt by (auto simp: HISTORY_MAX_STEPS_def)
qed

lemma commit_ok:
  assumes ok: "history_ok app" and c: "commitToHistory (historyIndex app) newLayers newActiveId app st = (app', st')"
  shows "history_ok app'" and "at_tip app'"
    and "last (history app') = \<lparr>layers = fst (cloneLayers newLayers st), activeLayerId = newActiveId\<rparr>"
proof -
  obtain cloned st1 where cl: "cloneLayers newLayers st = (cloned, st1)" by (cases "cloneLayers newLayers st")
  have b: "- 1 \<le> historyIndex app" "historyIndex app < int (length (history app))"
    "length (history app) \<le> 20"
    using ok by (simp_all add: history_ok_def HISTORY_MAX_STEPS_def)
  note e = commit_general[OF ok cl, of newActiveId, unfolded c]
  have h: "history app' = (if historyIndex app = 19 then tl (history app)
                         else take (nat (historyIndex app + 1)) (history app))
                          @ [\<lparr>layers = cloned, activeLayerId = newActiveId\<rparr>]"
    and i: "historyIndex app' = (if historyIndex app = 19 then 19 else historyIndex app + 1)"
    using e by auto
  show "history_ok app'" using b by (auto simp: history_ok_def HISTORY_MAX_STEPS_def h i)
  show "at_tip app'" using b by (auto simp: at_tip_def h i)
  show "last (history app') = \<lparr>layers = fst (cloneLayers newLayers st), activeLayerId = newActiveId\<rparr>"
    by (simp add: h cl)
qed

lemma slice0_length: "length (slice0 xs e) \<le> length xs"
  by (simp add: slice0_def Let_def)

lemma commit_length_cap:
  assumes "length (history app) \<le> 20"
  shows "length (history (fst (commitToHistory c newLayers newActiveId app st))) \<le> 20"
proof -
  have "length (slice0 (history app) (c + 1)) \<le> 20"
    using slice0_length[of "history app" "c + 1"] assms by linarith
  then show ?thesis
    by (simp add: commitToHistory_def Let_def split_def HISTORY_MAX_STEPS_def)
qed

lemma commitAll_length_cap:
  assumes "length (history app) \<le> 20"
  shows "length (history (fst (commitAll commits app st))) \<le> 20"
  using assms
proof (induction commits arbitrary: app st)
  case Nil
  then show ?case by simp
next
  case (Cons c commits)
  obtain k newLayers newActiveId where c: "c = (k, newLayers, newActiveId)" by (cases c)
  obtain app1 st1 where c1: "commitToHistory k newLayers newActiveId app st = (app1, st1)"
    by (cases "commitToHistory k newLayers newActiveId app st")
  have "length (history app1) \<le> 20"
    using commit_length_cap[OF Cons.prems, of k newLayers newActiveId st] by (simp add: c1)
  from Cons.IH[OF this, of st1] show ?case by (simp add: c c1)
qed

lemma commitAll_ok:
  assumes "history_ok app" and "freshCommits commits app st"
    and "commitAll commits app st = (app', st')"
  shows "history_ok app' \<and> (commits \<noteq> [] \<longrightarrow> at_tip app')"
  using assms
proof (induction commits arbitrary: app st)
  case Nil
  then show ?case by simp
next
  case (Cons c commits)
  obtain k newLayers newActiveId where c: "c = (k, newLayers, newActiveId)" by (cases c)
  have k: "k = historyIndex app" using Cons.prems(2) by (simp add: c)
  obtain app1 st1 where c1: "commitToHistory (historyIndex app) newLayers newActiveId app st = (app1, st1)"
    by (cases "commitToHistory (historyIndex app) newLayers newActiveId app st")
  have ok1: "history_ok app1" and tip1: "at_tip app1" using commit_ok[OF Cons.prems(1) c1] by auto
  have fr: "freshCommits commits app1 st1" using Cons.prems(2) by (simp add: c k c1)
  have rest: "commitAll commits app1 st1 = (app', st')" using Cons.prems(3) by (simp add: c k c1)
  from Cons.IH[OF ok1 fr rest] have r: "history_ok app'" "commits \<noteq> [] \<longrightarrow> at_tip app'" by auto
  show ?case
  proof (cases "commits = []")
    case True
    then have "app' = app1" using rest by simp
    then show ?thesis using ok1 tip1 by simp
  next
    case False
    then show ?thesis using r by simp
  qed
qed

text \<open>
  What holds of the history for commits from every render, and what holds when every commit
  is made from the current render. From a history of at most \<open>HISTORY_MAX_STEPS = 20\<close>
  snapshots, every sequence of commits, whatever index each callback closed over, leaves at
  most 20 snapshots. When every commit of the sequence is made from the current render, the
  state keeps its shape with the index at the tip once anything was committed. A single
  commit from the current render puts its snapshot last and the index on it; and when the
  retained snapshots plus the new one would exceed the cap, the result is the old history
  without its oldest snapshot, followed by the new one: 20 snapshots, index 19.
\<close>

theorem fresh_commits_keep_cap_and_tip:
  assumes "history_ok app"
  shows "int (length (history (fst (commitAll anyCommits app st)))) \<le> HISTORY_MAX_STEPS
       \<and> (freshCommits commits app st \<longrightarrow>
           (let (app', st') = commitAll commits app st
            in history_ok app' \<and> int (length (history app')) \<le> HISTORY_MAX_STEPS
               \<and> (commits \<noteq> [] \<longrightarrow> at_tip app')))
       \<and> (let (app', st') = commitToHistory (historyIndex app) newLayers newActiveId app st
          in history_ok app' \<and> at_tip app'
             \<and> last (history app')
                 = \<lparr>layers = fst (cloneLayers newLayers st), activeLayerId = newActiveId\<rparr>
             \<and> (int (length (slice0 (history app) (historyIndex app + 1))) + 1 > HISTORY_MAX_STEPS \<longrightarrow>
                   int (length (history app')) = HISTORY_MAX_STEPS
                 \<and> history app' = tl (history app)
                      @ [\<lparr>layers = fst (cloneLayers newLayers st), activeLayerId = newActiveId\<rparr>]
                 \<and> historyIndex app' = HISTORY_MAX_STEPS - 1))"
proof -
  have b: "- 1 \<le> historyIndex app" "historyIndex app < int (length (history app))"
    "length (history app) \<le> 20"
    using assms by (simp_all add: history_ok_def HISTORY_MAX_STEPS_def)
  have part0: "int (length (history (fst (commitAll anyCommits app st)))) \<le> HISTORY_MAX_STEPS"
    using commitAll_length_cap[OF b(3), of anyCommits st] by (simp add: HISTORY_MAX_STEPS_def)
  obtain appA stA where a: "commitAll commits app st = (appA, stA)"
    by (cases "commitAll commits app st")
  have part1: "freshCommits commits app st \<longrightarrow>
           (let (app', st') = commitAll commits app st
            in history_ok app' \<and> int (length (history app')) \<le> HISTORY_MAX_STEPS
               \<and> (commits \<noteq> [] \<longrightarrow> at_tip app'))"
  proof
    assume fr: "freshCommits commits app st"
    from commitAll_ok[OF assms fr a] have A: "history_ok appA" "commits \<noteq> [] \<longrightarrow> at_tip appA" by auto
    then have A': "int (length (history appA)) \<le> HISTORY_MAX_STEPS" by (simp add: history_ok_def)
    show "let (app', st') = commitAll commits app st
            in history_ok app' \<and> int (length (history app')) \<le> HISTORY_MAX_STEPS
               \<and> (commits \<noteq> [] \<longrightarrow> at_tip app')"
      using A A' by (simp add: a)
  qed
  obtain app1 st1 where c: "commitToHistory (historyIndex app) newLayers newActiveId app st = (app1, st1)"
    by (cases "commitToHistory (historyIndex app) newLayers newActiveId app st")
  note B = commit_ok[OF assms c]
  obtain cloned st2 where cl: "cloneLayers newLayers st = (cloned, st2)"
    by (cases "cloneLayers newLayers st")
  note e = commit_general[OF assms cl, of newActiveId, unfolded c]
  have over: "int (length (history app1)) = HISTORY_MAX_STEPS
            \<and> history app1 = tl (history app) @ [\<lparr>layers = cloned, activeLayerId = newActiveId\<rparr>]
            \<and> historyIndex app1 = HISTORY_MAX_STEPS - 1"
    if "int (length (slice0 (history app) (historyIndex app + 1))) + 1 > HISTORY_MAX_STEPS"
  proof -
    have "int (length (slice0 (history app) (historyIndex app + 1))) = historyIndex app + 1"
      using b by (simp add: slice0_take)
    with that b have i: "historyIndex app = 19" by (simp add: HISTORY_MAX_STEPS_def)
    then have "length (history app) = 20" using b by simp
    then show ?thesis using e i by (auto simp: HISTORY_MAX_STEPS_def)
  qed
  have part2: "let (app', st') = commitToHistory (historyIndex app) newLayers newActiveId app st
          in history_ok app' \<and> at_tip app'
             \<and> last (history app')
                 = \<lparr>layers = fst (cloneLayers newLayers st), activeLayerId = newActiveId\<rparr>
             \<and> (int (length (slice0 (history app) (historyIndex app + 1))) + 1 > HISTORY_MAX_STEPS \<longrightarrow>
                   int (length (history app')) = HISTORY_MAX_STEPS
                 \<and> history app' = tl (history app)
                      @ [\<lparr>layers = fst (cloneLayers newLayers st), activeLayerId = newActiveId\<rparr>]
                 \<and> historyIndex app' = HISTORY_MAX_STEPS - 1)"
    unfolding c Let_def prod.case cl fst_conv
  proof (intro conjI impI)
    show "history_ok app1" "at_tip app1" by (rule B)+
    show "last (history app1) = \<lparr>layers = cloned, activeLayerId = newActiveId\<rparr>"
      using B(3) by (simp add: cl)
  next
    assume "HISTORY_MAX_STEPS < int (length (slice0 (history app) (historyIndex app + 1))) + 1"
    from over[OF this]
    show "int (length (history app1)) = HISTORY_MAX_STEPS"
      "history app1 = tl (history app) @ [\<lparr>layers = cloned, activeLayerId = newActiveId\<rparr>]"
      "historyIndex app1 = HISTORY_MAX_STEPS - 1"
      by blast+
  qed
  from part0 part1 part2 show ?thesis by (intro conjI)
qed


lemma undo_at:
  assumes "0 < historyIndex app" "historyIndex app - 1 < int (length (history app))"
    and "history app ! nat (historyIndex app - 1) = step"
    and "cloneLayers (layers step) st = (cloned, st')"
  shows "undoAction app st =
      Some (app\<lparr>layers := cloned, activeLayerId := activeLayerId step,
                 historyIndex := historyIndex app - 1\<rparr>, st')"
  using assms by (simp add: undoAction_def arr_get_def Let_def)

lemma redo_at:
  assumes "- 1 \<le> historyIndex app" "historyIndex app < int (length (history app)) - 1"
    and "history app ! nat (historyIndex app + 1) = step"
    and "cloneLayers (layers step) st = (cloned, st')"
  shows "redoAction app st =
      Some (app\<lparr>layers := cloned, activeLayerId := activeLayerId step,
                 historyIndex := historyIndex app + 1\<rparr>, st')"
  using assms by (simp add: redoAction_def arr_get_def Let_def)

lemma redo_at_tip: "at_tip app \<Longrightarrow> redoAction app st = Some (app, st)"
  by (simp add: redoAction_def at_tip_def)

lemma fresh_disjoint:
  assumes "\<forall>r\<in>set xs. n \<le> r" "\<forall>r\<in>set ys. r < (n :: nat)"
  shows "set xs \<inter> set ys = {}"
  using assms by fastforce

text \<open>
  The round trip when every commit is made from the current render. Start from a history
  state of the right shape with the index at the tip, and let \<open>S1\<close> and \<open>S2\<close> be layer lists
  whose pixel buffers exist when they are committed. After commit of \<open>S1\<close>, commit of \<open>S2\<close> and
  undo, the layers of App are a deep-equal copy of \<open>S1\<close> (same layers, fields, dimensions and
  pixels as \<open>S1\<close> had when committed) with the active layer id committed with it; all their
  pixel buffers were allocated by the undo, so none is shared with \<open>S1\<close> or with a snapshot,
  and the snapshot itself shares none with \<open>S1\<close>. A redo then restores a deep-equal copy of
  \<open>S2\<close> in the same way. A commit of any \<open>S3\<close> after the undo replaces the snapshot of \<open>S2\<close>,
  the last of the history, by that of \<open>S3\<close> and leaves the index at the tip, where redo changes
  nothing.
\<close>

theorem round_trip_from_current_render:
  assumes ok: "history_ok app" and tip: "at_tip app"
    and v1: "\<forall>r\<in>set (layerRefs S1). r < next_ref st0"
    and v2: "\<forall>r\<in>set (layerRefs S2). r < next_ref (snd (commitToHistory (historyIndex app) S1 id1 app st0))"
  shows "let (app1, st1) = commitToHistory (historyIndex app) S1 id1 app st0;
             (app2, st2) = commitToHistory (historyIndex app1) S2 id2 app1 st1
         in \<exists>app3 st3 app4 st4.
              undoAction app2 st2 = Some (app3, st3)
            \<and> deepEqual st3 (layers app3) st0 S1 \<and> activeLayerId app3 = id1
            \<and> (\<forall>r\<in>set (layerRefs (layers app3)). next_ref st2 \<le> r \<and> r < next_ref st3)
            \<and> set (layerRefs (layers app3)) \<inter> set (layerRefs S1) = {}
            \<and> set (layerRefs (layers (last (history app1)))) \<inter> set (layerRefs S1) = {}
            \<and> redoAction app3 st3 = Some (app4, st4)
            \<and> deepEqual st4 (layers app4) st1 S2 \<and> activeLayerId app4 = id2
            \<and> (\<forall>r\<in>set (layerRefs (layers app4)). next_ref st3 \<le> r \<and> r < next_ref st4)
            \<and> set (layerRefs (layers app4)) \<inter> set (layerRefs S2) = {}
            \<and> (let (app5, st5) = commitToHistory (historyIndex app3) S3 id3 app3 st3
               in history app5 = butlast (history app2)
                     @ [\<lparr>layers = fst (cloneLayers S3 st3), activeLayerId = id3\<rparr>]
                \<and> last (history app2) = \<lparr>layers = fst (cloneLayers S2 st1), activeLayerId = id2\<rparr>
                \<and> at_tip app5 \<and> redoAction app5 st5 = Some (app5, st5))"
proof -
  \<comment> \<open>commit of S1\<close>
  from cloneLayers_spec[OF v1] obtain cl1 st1 where cl1: "cloneLayers S1 st0 = (cl1, st1)"
    and de1: "deepEqual st1 cl1 st0 S1" and n1: "next_ref st0 \<le> next_ref st1"
    and r1: "\<forall>r\<in>set (layerRefs cl1). next_ref st0 \<le> r \<and> r < next_ref st1"
    by blast
  define snap1 where "snap1 = \<lparr>layers = cl1, activeLayerId = id1\<rparr>"
  define app1 where "app1 = app\<lparr>history := (if length (history app) = 20 then tl (history app)
                                   else history app) @ [snap1],
      historyIndex := (if length (history app) = 20 then 19 else int (length (history app)))\<rparr>"
  have c1: "commitToHistory (historyIndex app) S1 id1 app st0 = (app1, st1)"
    unfolding app1_def snap1_def by (rule commit_at_tip[OF ok tip cl1])
  have ok1: "history_ok app1" and tip1: "at_tip app1" using commit_ok[OF ok c1] by auto
  have len: "length (history app) \<le> 20" using ok by (simp add: history_ok_def HISTORY_MAX_STEPS_def)
  have h1: "history app1 = (if length (history app) = 20 then tl (history app) else history app) @ [snap1]"
    by (simp add: app1_def)
  have last1: "last (history app1) = snap1" by (simp add: h1)
  have ne1: "history app1 \<noteq> []" by (simp add: h1)
  \<comment> \<open>commit of S2\<close>
  have v2': "\<forall>r\<in>set (layerRefs S2). r < next_ref st1" using v2 by (simp add: c1)
  from cloneLayers_spec[OF v2'] obtain cl2 st2 where cl2: "cloneLayers S2 st1 = (cl2, st2)"
    and de2: "deepEqual st2 cl2 st1 S2" and n2: "next_ref st1 \<le> next_ref st2"
    and k2: "\<forall>r. r < next_ref st1 \<longrightarrow> buffers st2 r = buffers st1 r"
    and r2: "\<forall>r\<in>set (layerRefs cl2). next_ref st1 \<le> r \<and> r < next_ref st2"
    by blast
  define snap2 where "snap2 = \<lparr>layers = cl2, activeLayerId = id2\<rparr>"
  define pre where "pre = (if length (history app1) = 20 then tl (history app1) else history app1)"
  define app2 where "app2 = app1\<lparr>history := pre @ [snap2],
      historyIndex := (if length (history app1) = 20 then 19 else int (length (history app1)))\<rparr>"
  have c2: "commitToHistory (historyIndex app1) S2 id2 app1 st1 = (app2, st2)"
    unfolding app2_def snap2_def pre_def by (rule commit_at_tip[OF ok1 tip1 cl2])
  have ok2: "history_ok app2" and tip2: "at_tip app2" using commit_ok[OF ok1 c2] by auto
  have pre_last: "pre \<noteq> [] \<and> last pre = snap1"
  proof (cases "length (history app1) = 20")
    case True
    then have "tl (history app1) \<noteq> []" by (cases "history app1") auto
    then show ?thesis using True last1 by (simp add: pre_def last_tl)
  next
    case False
    then show ?thesis using ne1 last1 by (simp add: pre_def)
  qed
  have h2: "history app2 = pre @ [snap2]" by (simp add: app2_def)
  have i2: "historyIndex app2 = int (length pre)" using tip2 by (simp add: at_tip_def h2)
  have at1: "history app2 ! nat (historyIndex app2 - 1) = snap1"
  proof -
    have "nat (historyIndex app2 - 1) = length pre - 1" using i2 by simp
    moreover have "length pre - 1 < length pre" using pre_last by (cases pre) auto
    ultimately have "history app2 ! nat (historyIndex app2 - 1) = pre ! (length pre - 1)"
      by (simp add: h2 nth_append)
    also have "\<dots> = last pre" using conjunct1[OF pre_last] by (simp add: last_conv_nth)
    finally show ?thesis using pre_last by simp
  qed
  have ipos: "0 < historyIndex app2" using i2 pre_last by (cases pre) auto
  \<comment> \<open>undo\<close>
  have v3: "\<forall>r\<in>set (layerRefs (layers snap1)). r < next_ref st2"
    using r1 n2 by (auto simp: snap1_def)
  from cloneLayers_spec[OF v3] obtain cl3 st3 where cl3: "cloneLayers (layers snap1) st2 = (cl3, st3)"
    and de3: "deepEqual st3 cl3 st2 (layers snap1)" and n3: "next_ref st2 \<le> next_ref st3"
    and k3: "\<forall>r. r < next_ref st2 \<longrightarrow> buffers st3 r = buffers st2 r"
    and r3: "\<forall>r\<in>set (layerRefs cl3). next_ref st2 \<le> r \<and> r < next_ref st3"
    by blast
  define app3 where "app3 = app2\<lparr>layers := cl3, activeLayerId := activeLayerId snap1,
                                   historyIndex := historyIndex app2 - 1\<rparr>"
  have u: "undoAction app2 st2 = Some (app3, st3)"
    unfolding app3_def
    by (rule undo_at[OF ipos _ at1 cl3]) (simp add: i2 h2)
  have "deepEqual st2 cl1 st1 cl1"
    by (rule deepEqual_refl_ext) (use r1 k2 in auto)
  with de3 have "deepEqual st3 cl3 st1 cl1" unfolding snap1_def by (simp add: deepEqual_trans)
  with de1 have eq1: "deepEqual st3 (layers app3) st0 S1"
    by (simp add: app3_def deepEqual_trans)
  have id1: "activeLayerId app3 = id1" by (simp add: app3_def snap1_def)
  have fresh3: "\<forall>r\<in>set (layerRefs (layers app3)). next_ref st2 \<le> r \<and> r < next_ref st3"
    using r3 by (simp add: app3_def)
  have dis3: "set (layerRefs (layers app3)) \<inter> set (layerRefs S1) = {}"
    by (rule fresh_disjoint[of _ "next_ref st2"]) (use fresh3 v1 n1 n2 in auto)
  have dis1: "set (layerRefs (layers (last (history app1)))) \<inter> set (layerRefs S1) = {}"
    unfolding last1
    by (rule fresh_disjoint[of _ "next_ref st0"]) (use r1 v1 in \<open>auto simp: snap1_def\<close>)
  \<comment> \<open>redo\<close>
  have h3: "history app3 = pre @ [snap2]" and i3: "historyIndex app3 = int (length pre) - 1"
    by (simp_all add: app3_def h2 i2)
  have at2: "history app3 ! nat (historyIndex app3 + 1) = snap2"
    using pre_last by (simp add: h3 i3 nth_append)
  have v4: "\<forall>r\<in>set (layerRefs (layers snap2)). r < next_ref st3"
    using r2 n3 by (auto simp: snap2_def)
  from cloneLayers_spec[OF v4] obtain cl4 st4 where cl4: "cloneLayers (layers snap2) st3 = (cl4, st4)"
    and de4: "deepEqual st4 cl4 st3 (layers snap2)"
    and r4: "\<forall>r\<in>set (layerRefs cl4). next_ref st3 \<le> r \<and> r < next_ref st4"
    by blast
  define app4 where "app4 = app3\<lparr>layers := cl4, activeLayerId := activeLayerId snap2,
                                   historyIndex := historyIndex app3 + 1\<rparr>"
  have rd: "redoAction app3 st3 = Some (app4, st4)"
    unfolding app4_def
  proof (rule redo_at[OF _ _ at2 cl4])
    show "- 1 \<le> historyIndex app3" using i3 by simp
    show "historyIndex app3 < int (length (history app3)) - 1" by (simp add: h3 i3)
  qed
  have "deepEqual st3 cl2 st2 cl2"
    by (rule deepEqual_refl_ext) (use r2 k3 in auto)
  with de4 have "deepEqual st4 cl4 st2 cl2" unfolding snap2_def by (simp add: deepEqual_trans)
  with de2 have eq2: "deepEqual st4 (layers app4) st1 S2"
    by (simp add: app4_def deepEqual_trans)
  have id2: "activeLayerId app4 = id2" by (simp add: app4_def snap2_def)
  have fresh4: "\<forall>r\<in>set (layerRefs (layers app4)). next_ref st3 \<le> r \<and> r < next_ref st4"
    using r4 by (simp add: app4_def)
  have dis4: "set (layerRefs (layers app4)) \<inter> set (layerRefs S2) = {}"
    by (rule fresh_disjoint[of _ "next_ref st3"]) (use fresh4 v2' n2 n3 in auto)
  \<comment> \<open>commit of S3 after the undo\<close>
  obtain cl5 st5 where cl5: "cloneLayers S3 st3 = (cl5, st5)" by (cases "cloneLayers S3 st3")
  have ok3: "history_ok app3"
    using ok2 pre_last by (cases pre) (auto simp: history_ok_def h3 i3 h2)
  obtain app5 st5' where c5: "commitToHistory (historyIndex app3) S3 id3 app3 st3 = (app5, st5')"
    by (cases "commitToHistory (historyIndex app3) S3 id3 app3 st3")
  have len2: "length pre + 1 \<le> 20"
    using ok2 by (simp add: history_ok_def HISTORY_MAX_STEPS_def h2)
  have e5: "history app5 = pre @ [\<lparr>layers = cl5, activeLayerId = id3\<rparr>]"
    using commit_general[OF ok3 cl5, of id3] c5 len2 by (auto simp: h3 i3)
  have tip5: "at_tip app5" using commit_ok(2)[OF ok3 c5] .
  have part5: "case commitToHistory (historyIndex app3) S3 id3 app3 st3 of (app5, st5) \<Rightarrow>
                 history app5 = butlast (history app2)
                     @ [\<lparr>layers = fst (cloneLayers S3 st3), activeLayerId = id3\<rparr>]
                \<and> last (history app2) = \<lparr>layers = fst (cloneLayers S2 st1), activeLayerId = id2\<rparr>
                \<and> at_tip app5 \<and> redoAction app5 st5 = Some (app5, st5)"
    using e5 tip5 redo_at_tip[OF tip5] by (simp add: c5 cl5 cl2 h2 snap2_def)
  have final: "undoAction app2 st2 = Some (app3, st3)
            \<and> deepEqual st3 (layers app3) st0 S1 \<and> activeLayerId app3 = id1
            \<and> (\<forall>r\<in>set (layerRefs (layers app3)). next_ref st2 \<le> r \<and> r < next_ref st3)
            \<and> set (layerRefs (layers app3)) \<inter> set (layerRefs S1) = {}
            \<and> set (layerRefs (layers (last (history app1)))) \<inter> set (layerRefs S1) = {}
            \<and> redoAction app3 st3 = Some (app4, st4)
            \<and> deepEqual st4 (layers app4) st1 S2 \<and> activeLayerId app4 = id2
            \<and> (\<forall>r\<in>set (layerRefs (layers app4)). next_ref st3 \<le> r \<and> r < next_ref st4)
            \<and> set (layerRefs (layers app4)) \<inter> set (layerRefs S2) = {}
            \<and> (case commitToHistory (historyIndex app3) S3 id3 app3 st3 of (app5, st5) \<Rightarrow>
                 history app5 = butlast (history app2)
                     @ [\<lparr>layers = fst (cloneLayers S3 st3), activeLayerId = id3\<rparr>]
                \<and> last (history app2) = \<lparr>layers = fst (cloneLayers S2 st1), activeLayerId = id2\<rparr>
                \<and> at_tip app5 \<and> redoAction app5 st5 = Some (app5, st5))"
    by (intro conjI u eq1 id1 fresh3 dis3 dis1 rd eq2 id2 fresh4 dis4 part5)
  show ?thesis
    unfolding c1 c2 Let_def prod.case
    by (rule exI[of _ app3], rule exI[of _ st3], rule exI[of _ app4], rule exI[of _ st4])
       (rule final)
qed

theorem round_trip_from_current_render_example:
  "history_ok example_app \<and> at_tip example_app
   \<and> (let (app1, st1) = commitToHistory (historyIndex example_app) [example_layer] ''a'' example_app example_store;
             (app2, st2) = commitToHistory (historyIndex app1) [example_layer\<lparr>visible := False\<rparr>] ''b'' app1 st1
         in \<exists>app3 st3 app4 st4.
              undoAction app2 st2 = Some (app3, st3)
            \<and> deepEqual st3 (layers app3) example_store [example_layer] \<and> activeLayerId app3 = ''a''
            \<and> (\<forall>r\<in>set (layerRefs (layers app3)). next_ref st2 \<le> r \<and> r < next_ref st3)
            \<and> set (layerRefs (layers app3)) \<inter> set (layerRefs [example_layer]) = {}
            \<and> set (layerRefs (layers (last (history app1)))) \<inter> set (layerRefs [example_layer]) = {}
            \<and> redoAction app3 st3 = Some (app4, st4)
            \<and> deepEqual st4 (layers app4) st1 [example_layer\<lparr>visible := False\<rparr>]
            \<and> activeLayerId app4 = ''b''
            \<and> (\<forall>r\<in>set (layerRefs (layers app4)). next_ref st3 \<le> r \<and> r < next_ref st4)
            \<and> set (layerRefs (layers app4)) \<inter> set (layerRefs [example_layer\<lparr>visible := False\<rparr>]) = {}
            \<and> (let (app5, st5) = commitToHistory (historyIndex app3) [] '''' app3 st3
               in history app5 = butlast (history app2)
                     @ [\<lparr>layers = fst (cloneLayers [] st3), activeLayerId = ''''\<rparr>]
                \<and> last (history app2)
                    = \<lparr>layers = fst (cloneLayers [example_layer\<lparr>visible := False\<rparr>] st1),
                       activeLayerId = ''b''\<rparr>
                \<and> at_tip app5 \<and> redoAction app5 st5 = Some (app5, st5)))"
proof -
  have ok: "history_ok example_app" and tip: "at_tip example_app"
    by (simp_all add: history_ok_def at_tip_def example_app_def HISTORY_MAX_STEPS_def)
  have v1: "\<forall>r\<in>set (layerRefs [example_layer]). r < next_ref example_store"
    by (simp add: layerRefs_def example_layer_def example_image_def example_store_def)
  have v2: "\<forall>r\<in>set (layerRefs [example_layer\<lparr>visible := False\<rparr>]).
              r < next_ref (snd (commitToHistory (historyIndex example_app) [example_layer] ''a'' example_app example_store))"
  proof
    fix r assume "r \<in> set (layerRefs [example_layer\<lparr>visible := False\<rparr>])"
    then have "r < next_ref example_store"
      by (simp add: layerRefs_def example_layer_def example_image_def example_store_def)
    with commit_next_ref[of example_store "historyIndex example_app" "[example_layer]" "''a''" example_app]
    show "r < next_ref (snd (commitToHistory (historyIndex example_app) [example_layer] ''a'' example_app example_store))"
      by simp
  qed
  note t = round_trip_from_current_render[OF ok tip v1 v2, of "''b''" "[]" "''''"]
  from ok tip t show ?thesis by (intro conjI)
qed

text \<open>
  Claim C8. The round trip fails when the second commit is made through a callback that
  outlived its render. From the initial state of App (one snapshot, index 0), \<open>S1\<close> is
  committed from the current render and \<open>S2\<close> through a callback of that same render, which
  closed over index 0, as \<open>img.onload\<close> of addImageLayer does when another commit happens
  while the image loads. The second commit slices the history to the initial snapshot, so the
  snapshot of \<open>S1\<close> is dropped, and moves the index to 2, past the end. Undo then moves the
  index to 1 and restores the snapshot found there, that of \<open>S2\<close>: the layers of App are a
  deep-equal copy of \<open>S2\<close>, not of \<open>S1\<close>, and redo changes nothing.
\<close>

theorem stale_commit_undo_restores_second_state:
  "(let (app1, st1) = commitToHistory 0 [example_layer] ''a'' example_app example_store;
        (app2, st2) = commitToHistory 0 [example_layer\<lparr>visible := False\<rparr>] ''b'' app1 st1
    in historyIndex example_app = 0 \<and> historyIndex app1 = 1
       \<and> map activeLayerId (history app2) = ['''', ''b''] \<and> historyIndex app2 = 2
       \<and> (case undoAction app2 st2 of
             None \<Rightarrow> False
           | Some (app3, st3) \<Rightarrow>
               activeLayerId app3 = ''b'' \<and> historyIndex app3 = 1
             \<and> deepEqual st3 (layers app3) st1 [example_layer\<lparr>visible := False\<rparr>]
             \<and> deepEqual st3 (layers app3) example_store [example_layer] = False
             \<and> redoAction app3 st3 = Some (app3, st3)))"
  by (simp add: commitToHistory_def undoAction_def redoAction_def slice0_def arr_get_def Let_def
      split_def example_app_def example_layer_def example_image_def example_store_def
      newUint8ClampedArray_def HISTORY_MAX_STEPS_def deepEqual_def pixelsOf_def)

declare maskLoop.simps [simp del]

lemma maskLoop_spec:
  assumes "0 \<le> i" "i mod 4 = 0"
  shows "length (maskLoop m i px) = length px
       \<and> (\<forall>k < length px. maskLoop m i px ! k =
             (if int k mod 4 = 3 \<and> i \<le> int k - 3 \<and> arr_get m (int k - 3) = Some 0 then 0
              else px ! k))"
  using assms
proof (induction m i px rule: maskLoop.induct)
  case (1 m i px)
  show ?case
  proof (cases "i < int (length px)")
    case False
    then have e: "maskLoop m i px = px" by (subst maskLoop.simps) simp
    have far: "\<not> i \<le> int k - 3" if "k < length px" for k
      using that False by linarith
    show ?thesis
      unfolding e
    proof (intro conjI allI impI)
      fix k assume "k < length px"
      from far[OF this]
      have c: "(int k mod 4 = 3 \<and> i \<le> int k - 3 \<and> arr_get m (int k - 3) = Some 0) = False"
        by blast
      show "px ! k = (if int k mod 4 = 3 \<and> i \<le> int k - 3 \<and> arr_get m (int k - 3) = Some 0
                      then 0 else px ! k)"
        by (simp only: c if_False)
    qed (rule refl)
  next
    case True
    define px' where "px' = (if arr_get m i = Some 0 then arr_set px (i + 3) 0 else px)"
    have e: "maskLoop m i px = maskLoop m (i + 4) px'"
      by (subst maskLoop.simps) (simp add: True px'_def)
    have l': "length px' = length px" by (simp add: px'_def)
    have i4: "0 \<le> i + 4" "(i + 4) mod 4 = 0" using "1.prems" by simp_all
    from "1.IH"[OF True i4, folded px'_def]
    have ih: "length (maskLoop m (i + 4) px') = length px'"
      "\<And>k. k < length px' \<Longrightarrow> maskLoop m (i + 4) px' ! k =
             (if int k mod 4 = 3 \<and> i + 4 \<le> int k - 3 \<and> arr_get m (int k - 3) = Some 0 then 0
              else px' ! k)"
      by auto
    have nth': "px' ! k = (if arr_get m i = Some 0 \<and> int k = i + 3 then 0 else px ! k)"
      if "k < length px" for k
      using that by (auto simp: px'_def nth_arr_set)
    have "maskLoop m (i + 4) px' ! k =
             (if int k mod 4 = 3 \<and> i \<le> int k - 3 \<and> arr_get m (int k - 3) = Some 0 then 0
              else px ! k)"
      if k: "k < length px" for k
    proof (cases "int k = i + 3")
      case True
      then have a: "int k mod 4 = 3" "i \<le> int k - 3" "\<not> i + 4 \<le> int k - 3" "int k - 3 = i"
        using "1.prems" by presburger+
      show ?thesis
        using ih(2)[of k] k l' nth'[OF k] a True by simp
    next
      case False
      have b: "int k mod 4 = 3 \<and> i \<le> int k - 3 \<longleftrightarrow> int k mod 4 = 3 \<and> i + 4 \<le> int k - 3"
        using False "1.prems" by presburger
      show ?thesis
        using ih(2)[of k] k l' nth'[OF k] False b by auto
    qed
    then show ?thesis unfolding e using ih(1) l' by simp
  qed
qed


lemma arr_get_nat: "k < length m \<Longrightarrow> arr_get m (int k) = Some (m ! k)"
proof -
  assume a: "k < length m"
  have "arr_get m (int k) = Some (m ! nat (int k))"
  proof (rule arr_get_Some)
    show "0 \<le> int k" by (rule of_nat_0_le_iff)
    show "int k < int (length m)" using a by (simp only: of_nat_less_iff)
  qed
  then show ?thesis by (simp only: nat_int)
qed

lemma maskLoop_pixels:
  assumes lm: "length m = 4 * n" and lp: "length px = 4 * n" and p: "p < n"
  shows "length (maskLoop m 0 px) = 4 * n"
    and "\<And>c. c < 3 \<Longrightarrow> maskLoop m 0 px ! (4 * p + c) = px ! (4 * p + c)"
    and "maskLoop m 0 px ! (4 * p + 3) = (if m ! (4 * p) = 0 then 0 else px ! (4 * p + 3))"
proof -
  have z: "(0 :: int) \<le> 0" "(0 :: int) mod 4 = 0" by simp_all
  note s = maskLoop_spec[OF z, of m px]
  from s have len: "length (maskLoop m 0 px) = length px" by (rule conjunct1)
  from s have nth: "\<And>k. k < length px \<Longrightarrow> maskLoop m 0 px ! k =
             (if int k mod 4 = 3 \<and> 0 \<le> int k - 3 \<and> arr_get m (int k - 3) = Some 0 then 0
              else px ! k)"
    by blast
  show "length (maskLoop m 0 px) = 4 * n" using len lp by (simp only:)
  show "maskLoop m 0 px ! (4 * p + c) = px ! (4 * p + c)" if "c < 3" for c
  proof -
    have k: "4 * p + c < length px" using p lp that by linarith
    have "int (4 * p + c) mod 4 \<noteq> 3" using that by presburger
    then have c: "(int (4 * p + c) mod 4 = 3 \<and> 0 \<le> int (4 * p + c) - 3
                   \<and> arr_get m (int (4 * p + c) - 3) = Some 0) = False"
      by blast
    show ?thesis using nth[OF k] by (simp only: c if_False)
  qed
  show "maskLoop m 0 px ! (4 * p + 3) = (if m ! (4 * p) = 0 then 0 else px ! (4 * p + 3))"
  proof -
    have k: "4 * p + 3 < length px" using p lp by linarith
    have a: "int (4 * p + 3) mod 4 = 3" by presburger
    have b: "0 \<le> int (4 * p + 3) - 3" by linarith
    have e3: "int (4 * p + 3) - 3 = int (4 * p)" by linarith
    have "4 * p < length m" using p lm by linarith
    from arr_get_nat[OF this] have g: "arr_get m (int (4 * p + 3) - 3) = Some (m ! (4 * p))"
      by (simp only: e3)
    have c: "(int (4 * p + 3) mod 4 = 3 \<and> 0 \<le> int (4 * p + 3) - 3
                   \<and> arr_get m (int (4 * p + 3) - 3) = Some 0) = (m ! (4 * p) = 0)"
      using a b by (simp only: g option.inject simp_thms)
    show ?thesis using nth[OF k] by (simp only: c)
  qed
qed

text \<open>
  Claim C7. Let the engine be freshly initialised (identity map) for the active layer, whose
  raster is well formed, let the lasso path have at least 3 points, and let the canvas
  return a mask of the raster's size for the filled path. Then applyLassoMask calls
  \<open>onInteractionEnd\<close> with the layers in which the active layer has a new raster of the same
  dimensions, resets the engine to it and clears the path. In the new raster every pixel
  has its red, green and blue channels unchanged; its alpha is 0 where the red channel of
  the mask is 0 (outside the rasterised polygon) and unchanged elsewhere (inside). The
  original buffer is not written.
\<close>

theorem lasso_mask_clears_alpha_outside:
  assumes path: "3 \<le> length lassoPath"
    and active: "find (\<lambda>l. layer_id l = activeId) layersRef = Some activeLayer"
    and img: "imageData activeLayer = Some img"
    and wf: "data img < next_ref st" "length (buffers st (data img)) = 4 * width img * height img"
      "0 < width img" "0 < height img"
    and ctx: "context2d br"
    and mask: "maskData = fillPath br
                 (map (\<lambda>p. worldToLocal p activeLayer (real (width img)) (real (height img))) lassoPath)
                 (width img) (height img)"
    and lmask: "length maskData = 4 * width img * height img"
  shows "\<exists>final st'.
       applyLassoMask br lassoPath layersRef activeId (initEngine activeLayer eng0) st
         = Some (initEngine (activeLayer\<lparr>imageData := Some final\<rparr>) (initEngine activeLayer eng0), [],
                 Some (map (\<lambda>l. if layer_id l = activeId then l\<lparr>imageData := Some final\<rparr> else l)
                         layersRef),
                 st')
     \<and> width final = width img \<and> height final = height img
     \<and> length (buffers st' (data final)) = 4 * width img * height img
     \<and> data final \<noteq> data img \<and> buffers st' (data img) = buffers st (data img)
     \<and> (\<forall>p < width img * height img.
           (\<forall>c < 3. buffers st' (data final) ! (4 * p + c) = buffers st (data img) ! (4 * p + c))
         \<and> buffers st' (data final) ! (4 * p + 3)
             = (if maskData ! (4 * p) = 0 then 0 else buffers st (data img) ! (4 * p + 3)))"
proof -
  let ?px = "buffers st (data img)"
  define r0 where "r0 = next_ref st"
  define r1 where "r1 = Suc (next_ref st)"
  define st1 where "st1 = st\<lparr>buffers := (buffers st)(r0 := ?px), next_ref := Suc r0\<rparr>"
  define st2 where "st2 = st1\<lparr>buffers := (buffers st1)(r1 := ?px), next_ref := Suc r1\<rparr>"
  define st3 where "st3 = st2\<lparr>buffers := (buffers st2)(r1 := maskLoop maskData 0 ?px)\<rparr>"
  define final where "final = \<lparr>data = r1, width = width img, height = height img\<rparr>"
  from initEngine_identity[OF img, of eng0]
  obtain idX idY where ie: "initEngine activeLayer eng0 =
           \<lparr>mapXRef = Some idX, mapYRef = Some idY, activeOriginalDataRef = Some img,
            loadedLayerIdRef = Some (layer_id activeLayer)\<rparr>"
    by blast
  have bake: "bakeCurrentWarp br (initEngine activeLayer eng0) st
                = Some (Some \<lparr>data = r0, width = width img, height = height img\<rparr>, st1)"
    unfolding r0_def st1_def by (rule bake_identity[OF img wf ctx])
  have np: "newUint8ClampedArray (buffers st1 r0) st1 = (r1, st2)"
    by (simp add: newUint8ClampedArray_def st2_def st1_def r1_def r0_def)
  have b2: "buffers st2 r1 = ?px" by (simp add: st2_def)
  have nlt: "\<not> length lassoPath < 3" using path by simp
  have run: "applyLassoMask br lassoPath layersRef activeId (initEngine activeLayer eng0) st
         = Some (initEngine (activeLayer\<lparr>imageData := Some final\<rparr>) (initEngine activeLayer eng0), [],
                 Some (map (\<lambda>l. if layer_id l = activeId then l\<lparr>imageData := Some final\<rparr> else l)
                         layersRef),
                 st3)"
    unfolding applyLassoMask_def
    by (simp add: bake[unfolded ie] ie nlt active ctx Let_def np b2 mask[symmetric] final_def st3_def)
  have lp: "length ?px = 4 * (width img * height img)" using wf(2) by (simp add: mult.assoc)
  have lm: "length maskData = 4 * (width img * height img)" using lmask by (simp add: mult.assoc)
  have bf: "buffers st3 (data final) = maskLoop maskData 0 ?px"
    by (simp add: st3_def final_def)
  have keep: "buffers st3 (data img) = ?px"
    using wf(1) by (simp add: st3_def st2_def st1_def r1_def r0_def)
  show ?thesis
  proof (intro exI conjI allI impI)
    show "applyLassoMask br lassoPath layersRef activeId (initEngine activeLayer eng0) st
         = Some (initEngine (activeLayer\<lparr>imageData := Some final\<rparr>) (initEngine activeLayer eng0), [],
                 Some (map (\<lambda>l. if layer_id l = activeId then l\<lparr>imageData := Some final\<rparr> else l)
                         layersRef),
                 st3)"
      by (rule run)
    show "width final = width img" "height final = height img" by (simp_all add: final_def)
    show "data final \<noteq> data img" using wf(1) by (simp add: final_def r1_def)
    show "buffers st3 (data img) = ?px" by (rule keep)
    show "length (buffers st3 (data final)) = 4 * width img * height img"
    proof -
      have pos: "0 < width img * height img" using wf(3,4) by simp
      from maskLoop_pixels(1)[OF lm lp pos] show ?thesis
        unfolding bf by (simp add: mult.assoc)
    qed
  next
    fix p c assume p: "p < width img * height img" and c: "c < (3 :: nat)"
    show "buffers st3 (data final) ! (4 * p + c) = ?px ! (4 * p + c)"
      unfolding bf by (rule maskLoop_pixels(2)[OF lm lp p c])
  next
    fix p assume p: "p < width img * height img"
    show "buffers st3 (data final) ! (4 * p + 3)
             = (if maskData ! (4 * p) = 0 then 0 else ?px ! (4 * p + 3))"
      unfolding bf by (rule maskLoop_pixels(3)[OF lm lp p])
  qed
qed

theorem lasso_mask_clears_alpha_outside_witness:
  "3 \<le> length [(0, 0), (0, 2), (1, 2 :: real)]
   \<and> find (\<lambda>l. layer_id l = ''a'') [example_layer] = Some example_layer
   \<and> imageData example_layer = Some example_image
   \<and> data example_image < next_ref example_store
   \<and> length (buffers example_store (data example_image))
        = 4 * width example_image * height example_image
   \<and> 0 < width example_image \<and> 0 < height example_image
   \<and> context2d example_browser
   \<and> length (fillPath example_browser
         (map (\<lambda>p. worldToLocal p example_layer (real (width example_image))
                      (real (height example_image))) [(0, 0), (0, 2), (1, 2)])
         (width example_image) (height example_image))
        = 4 * width example_image * height example_image
   \<and> (\<exists>final st'.
       applyLassoMask example_browser [(0, 0), (0, 2), (1, 2)] [example_layer] ''a''
           (initEngine example_layer example_engine) example_store
         = Some (initEngine (example_layer\<lparr>imageData := Some final\<rparr>)
                   (initEngine example_layer example_engine), [],
                 Some (map (\<lambda>l. if layer_id l = ''a'' then l\<lparr>imageData := Some final\<rparr> else l)
                         [example_layer]),
                 st')
     \<and> width final = width example_image \<and> height final = height example_image
     \<and> length (buffers st' (data final)) = 4 * width example_image * height example_image
     \<and> data final \<noteq> data example_image
     \<and> buffers st' (data example_image) = buffers example_store (data example_image)
     \<and> (\<forall>p < width example_image * height example_image.
           (\<forall>c < 3. buffers st' (data final) ! (4 * p + c)
                      = buffers example_store (data example_image) ! (4 * p + c))
         \<and> buffers st' (data final) ! (4 * p + 3)
             = (if fillPath example_browser
                     (map (\<lambda>p. worldToLocal p example_layer (real (width example_image))
                                  (real (height example_image))) [(0, 0), (0, 2), (1, 2)])
                     (width example_image) (height example_image) ! (4 * p) = 0
                then 0 else buffers example_store (data example_image) ! (4 * p + 3))))"
proof -
  have h: "3 \<le> length [(0, 0), (0, 2), (1, 2 :: real)]"
    "find (\<lambda>l. layer_id l = ''a'') [example_layer] = Some example_layer"
    "imageData example_layer = Some example_image"
    "data example_image < next_ref example_store"
    "length (buffers example_store (data example_image))
        = 4 * width example_image * height example_image"
    "0 < width example_image" "0 < height example_image" "context2d example_browser"
    by (simp_all add: example_layer_def example_image_def example_store_def example_browser_def)
  have l: "length (fillPath example_browser
         (map (\<lambda>p. worldToLocal p example_layer (real (width example_image))
                      (real (height example_image))) [(0, 0), (0, 2), (1, 2)])
         (width example_image) (height example_image))
        = 4 * width example_image * height example_image"
    by (simp add: example_browser_def example_image_def)
  from lasso_mask_clears_alpha_outside[OF h refl l, of example_engine] h l
  show ?thesis by (intro conjI)
qed

lemma clamp_below:
  fixes f w :: int
  assumes "f < 0" "0 < w"
  shows "max 0 (min (w - 1) f) = 0" "max 0 (min (w - 1) (f + 1)) = 0"
  using assms by auto

lemma sample_identity_x:
  assumes w: "0 < w" and h: "0 < h" and l: "length arr = nat (w * h)"
    and ident: "\<And>x y. 0 \<le> x \<Longrightarrow> x < w \<Longrightarrow> 0 \<le> y \<Longrightarrow> y < h \<Longrightarrow> arr ! nat (y * w + x) = of_int x"
  shows "sample arr w h u v = Some (max 0 (min (of_int (w - 1)) u))"
proof -
  define sx0 where "sx0 = max 0 (min (w - 1) \<lfloor>u\<rfloor>)"
  define sx1 where "sx1 = max 0 (min (w - 1) (\<lfloor>u\<rfloor> + 1))"
  define sy0 where "sy0 = max 0 (min (h - 1) \<lfloor>v\<rfloor>)"
  define sy1 where "sy1 = max 0 (min (h - 1) (\<lfloor>v\<rfloor> + 1))"
  define mu where "mu = u - of_int \<lfloor>u\<rfloor>"
  define mv where "mv = v - of_int \<lfloor>v\<rfloor>"
  have rx: "0 \<le> sx0" "sx0 < w" "0 \<le> sx1" "sx1 < w"
    using w by (auto simp: sx0_def sx1_def)
  have ry: "0 \<le> sy0" "sy0 < h" "0 \<le> sy1" "sy1 < h"
    using h by (auto simp: sy0_def sy1_def)
  have v: "arr ! nat (sy0 * w + sx0) = of_int sx0" "arr ! nat (sy0 * w + sx1) = of_int sx1"
    "arr ! nat (sy1 * w + sx0) = of_int sx0" "arr ! nat (sy1 * w + sx1) = of_int sx1"
    using rx ry by (simp_all add: ident)
  have s: "sample arr w h u v =
     Some (of_int sx0 * (1 - mu) * (1 - mv) + of_int sx1 * mu * (1 - mv)
         + of_int sx0 * (1 - mu) * mv + of_int sx1 * mu * mv)"
    unfolding sample_Some[OF w h l] v[unfolded sx0_def sx1_def sy0_def sy1_def]
      sx0_def sx1_def mu_def mv_def ..
  have alg: "of_int sx0 * (1 - mu) * (1 - mv) + of_int sx1 * mu * (1 - mv)
         + of_int sx0 * (1 - mu) * mv + of_int sx1 * mu * mv
       = of_int sx0 * (1 - mu) + of_int sx1 * mu"
    by (simp add: algebra_simps)
  have val: "of_int sx0 * (1 - mu) + of_int sx1 * mu = max 0 (min (of_int (w - 1)) u)"
  proof -
    consider "\<lfloor>u\<rfloor> < 0" | "0 \<le> \<lfloor>u\<rfloor>" "\<lfloor>u\<rfloor> < w - 1" | "w - 1 \<le> \<lfloor>u\<rfloor>" by linarith
    then show ?thesis
    proof cases
      case 1
      then have "sx0 = 0" "sx1 = 0" unfolding sx0_def sx1_def using w by (rule clamp_below)+
      moreover have "u < 0" using 1 by (simp add: floor_less_iff)
      ultimately show ?thesis by simp
    next
      case 2
      then have e: "sx0 = \<lfloor>u\<rfloor>" "sx1 = \<lfloor>u\<rfloor> + 1" by (auto simp: sx0_def sx1_def)
      have "0 \<le> u" using 2(1) by (simp add: le_floor_iff)
      moreover have "u < of_int (w - 1)" using 2(2) by (simp add: floor_less_iff)
      moreover have "of_int sx0 * (1 - mu) + of_int sx1 * mu = u"
        unfolding e mu_def by (simp add: algebra_simps)
      ultimately show ?thesis by simp
    next
      case 3
      then have e: "sx0 = w - 1" "sx1 = w - 1" using w by (auto simp: sx0_def sx1_def)
      have "of_int (w - 1) \<le> u" using 3 by (simp add: le_floor_iff)
      moreover have "(0 :: real) \<le> of_int (w - 1)" using w by simp
      moreover have "of_int sx0 * (1 - mu) + of_int sx1 * mu = (of_int (w - 1) :: real)"
        unfolding e by (simp add: algebra_simps)
      ultimately show ?thesis by simp
    qed
  qed
  show ?thesis unfolding s alg val ..
qed

lemma sample_identity_y:
  assumes w: "0 < w" and h: "0 < h" and l: "length arr = nat (w * h)"
    and ident: "\<And>x y. 0 \<le> x \<Longrightarrow> x < w \<Longrightarrow> 0 \<le> y \<Longrightarrow> y < h \<Longrightarrow> arr ! nat (y * w + x) = of_int y"
  shows "sample arr w h u v = Some (max 0 (min (of_int (h - 1)) v))"
proof -
  define sx0 where "sx0 = max 0 (min (w - 1) \<lfloor>u\<rfloor>)"
  define sx1 where "sx1 = max 0 (min (w - 1) (\<lfloor>u\<rfloor> + 1))"
  define sy0 where "sy0 = max 0 (min (h - 1) \<lfloor>v\<rfloor>)"
  define sy1 where "sy1 = max 0 (min (h - 1) (\<lfloor>v\<rfloor> + 1))"
  define mu where "mu = u - of_int \<lfloor>u\<rfloor>"
  define mv where "mv = v - of_int \<lfloor>v\<rfloor>"
  have rx: "0 \<le> sx0" "sx0 < w" "0 \<le> sx1" "sx1 < w"
    using w by (auto simp: sx0_def sx1_def)
  have ry: "0 \<le> sy0" "sy0 < h" "0 \<le> sy1" "sy1 < h"
    using h by (auto simp: sy0_def sy1_def)
  have v: "arr ! nat (sy0 * w + sx0) = of_int sy0" "arr ! nat (sy0 * w + sx1) = of_int sy0"
    "arr ! nat (sy1 * w + sx0) = of_int sy1" "arr ! nat (sy1 * w + sx1) = of_int sy1"
    using rx ry by (simp_all add: ident)
  have s: "sample arr w h u v =
     Some (of_int sy0 * (1 - mu) * (1 - mv) + of_int sy0 * mu * (1 - mv)
         + of_int sy1 * (1 - mu) * mv + of_int sy1 * mu * mv)"
    unfolding sample_Some[OF w h l] v[unfolded sx0_def sx1_def sy0_def sy1_def]
      sy0_def sy1_def mu_def mv_def ..
  have alg: "of_int sy0 * (1 - mu) * (1 - mv) + of_int sy0 * mu * (1 - mv)
         + of_int sy1 * (1 - mu) * mv + of_int sy1 * mu * mv
       = of_int sy0 * (1 - mv) + of_int sy1 * mv"
    by (simp add: algebra_simps)
  have val: "of_int sy0 * (1 - mv) + of_int sy1 * mv = max 0 (min (of_int (h - 1)) v)"
  proof -
    consider "\<lfloor>v\<rfloor> < 0" | "0 \<le> \<lfloor>v\<rfloor>" "\<lfloor>v\<rfloor> < h - 1" | "h - 1 \<le> \<lfloor>v\<rfloor>" by linarith
    then show ?thesis
    proof cases
      case 1
      then have "sy0 = 0" "sy1 = 0" unfolding sy0_def sy1_def using h by (rule clamp_below)+
      moreover have "v < 0" using 1 by (simp add: floor_less_iff)
      ultimately show ?thesis by simp
    next
      case 2
      then have e: "sy0 = \<lfloor>v\<rfloor>" "sy1 = \<lfloor>v\<rfloor> + 1" by (auto simp: sy0_def sy1_def)
      have "0 \<le> v" using 2(1) by (simp add: le_floor_iff)
      moreover have "v < of_int (h - 1)" using 2(2) by (simp add: floor_less_iff)
      moreover have "of_int sy0 * (1 - mv) + of_int sy1 * mv = v"
        unfolding e mv_def by (simp add: algebra_simps)
      ultimately show ?thesis by simp
    next
      case 3
      then have e: "sy0 = h - 1" "sy1 = h - 1" using h by (auto simp: sy0_def sy1_def)
      have "of_int (h - 1) \<le> v" using 3 by (simp add: le_floor_iff)
      moreover have "(0 :: real) \<le> of_int (h - 1)" using h by simp
      moreover have "of_int sy0 * (1 - mv) + of_int sy1 * mv = (of_int (h - 1) :: real)"
        unfolding e by (simp add: algebra_simps)
      ultimately show ?thesis by simp
    qed
  qed
  show ?thesis unfolding s alg val ..
qed

lemma stroke_displacement_cell:
  assumes img: "imageData layer = Some img"
    and g: "0 \<le> gx" "gx < int (width img)" "0 \<le> gy" "gy < int (height img)"
  shows "\<exists>idX idY vx vy.
      mapXRef (initEngine layer eng0) = Some idX \<and> mapYRef (initEngine layer eng0) = Some idY
    \<and> length idX = nat (int (width img) * int (height img))
    \<and> length idY = nat (int (width img) * int (height img))
    \<and> (\<forall>x y. 0 \<le> x \<longrightarrow> x < int (width img) \<longrightarrow> 0 \<le> y \<longrightarrow> y < int (height img) \<longrightarrow>
             idX ! nat (y * int (width img) + x) = of_int x
           \<and> idY ! nat (y * int (width img) + x) = of_int y)
    \<and> strokeDisplacement tool bs zoom ls aid (initEngine layer eng0) mouseX mouseY prevX prevY gx gy
        = Some (sqrt ((vx - of_int gx) * (vx - of_int gx) + (vy - of_int gy) * (vy - of_int gy)))
    \<and> (if inBrushBox (localRadiusOf bs zoom ls aid) mouseX mouseY
              (int (width img)) (int (height img)) gx gy
        then distortCell tool (strength bs) (localRadiusOf bs zoom ls aid) mouseX mouseY
               (mouseX - prevX) (mouseY - prevY) idX idY
               (int (width img)) (int (height img)) gx gy = Some (vx, vy)
        else vx = of_int gx \<and> vy = of_int gy)"
proof -
  let ?w = "int (width img)" and ?h = "int (height img)"
  let ?R = "localRadiusOf bs zoom ls aid"
  define eng where "eng = initEngine layer eng0"
  from initEngine_identity[OF img, of eng0]
  obtain idX idY where ie: "eng =
           \<lparr>mapXRef = Some idX, mapYRef = Some idY, activeOriginalDataRef = Some img,
            loadedLayerIdRef = Some (layer_id layer)\<rparr>"
    and l: "length idX = width img * height img" "length idY = width img * height img"
    and ident: "\<forall>x y. 0 \<le> x \<longrightarrow> x < ?w \<longrightarrow> 0 \<le> y \<longrightarrow> y < ?h \<longrightarrow>
             idX ! nat (y * ?w + x) = of_int x \<and> idY ! nat (y * ?w + x) = of_int y"
    unfolding eng_def by blast
  have e: "mapXRef eng = Some idX" "mapYRef eng = Some idY" "activeOriginalDataRef eng = Some img"
    by (simp_all add: ie)
  have lm: "length idX = nat (?w * ?h)" "length idY = nat (?w * ?h)"
    using l by (simp_all add: nat_mult_distrib)
  from applyDistortion_cells[OF e l, of tool bs zoom ls aid mouseX mouseY prevX prevY]
  obtain mapX' mapY' where a:
    "applyDistortion tool bs zoom ls aid eng mouseX mouseY prevX prevY
        = Some (eng\<lparr>mapXRef := Some mapX', mapYRef := Some mapY'\<rparr>)"
    and l': "length mapX' = length idX" "length mapY' = length idY"
    and c: "\<And>gx gy. 0 \<le> gx \<Longrightarrow> gx < ?w \<Longrightarrow> 0 \<le> gy \<Longrightarrow> gy < ?h \<Longrightarrow>
         (if inBrushBox ?R mouseX mouseY ?w ?h gx gy
          then distortCell tool (strength bs) ?R mouseX mouseY
                 (mouseX - prevX) (mouseY - prevY) idX idY ?w ?h gx gy
                 = Some (mapX' ! nat (gy * ?w + gx), mapY' ! nat (gy * ?w + gx))
          else mapX' ! nat (gy * ?w + gx) = idX ! nat (gy * ?w + gx)
             \<and> mapY' ! nat (gy * ?w + gx) = idY ! nat (gy * ?w + gx))"
    by blast
  have b: "0 \<le> gy * ?w + gx" "gy * ?w + gx < ?w * ?h" using idx_bound[OF g] by blast+
  have gX: "arr_get mapX' (gy * ?w + gx) = Some (mapX' ! nat (gy * ?w + gx))"
    using b l' lm by (intro arr_get_Some) simp_all
  have gY: "arr_get mapY' (gy * ?w + gx) = Some (mapY' ! nat (gy * ?w + gx))"
    using b l' lm by (intro arr_get_Some) simp_all
  define vx where "vx = mapX' ! nat (gy * ?w + gx)"
  define vy where "vy = mapY' ! nat (gy * ?w + gx)"
  have sd: "strokeDisplacement tool bs zoom ls aid eng mouseX mouseY prevX prevY gx gy
        = Some (sqrt ((vx - of_int gx) * (vx - of_int gx) + (vy - of_int gy) * (vy - of_int gy)))"
    unfolding strokeDisplacement_def displacementAt_def a
    by (simp add: e gX gY vx_def vy_def)
  have cell: "if inBrushBox ?R mouseX mouseY ?w ?h gx gy
        then distortCell tool (strength bs) ?R mouseX mouseY
               (mouseX - prevX) (mouseY - prevY) idX idY ?w ?h gx gy = Some (vx, vy)
        else vx = of_int gx \<and> vy = of_int gy"
    using c[OF g] ident g by (simp add: vx_def vy_def)
  from e(1,2) lm ident sd cell show ?thesis unfolding eng_def by blast
qed

lemma stroke_displacement_outside:
  assumes img: "imageData layer = Some img"
    and g: "0 \<le> gx" "gx < int (width img)" "0 \<le> gy" "gy < int (height img)"
    and out: "\<not> (of_int gx - mouseX) * (of_int gx - mouseX) + (of_int gy - mouseY) * (of_int gy - mouseY)
                < localRadiusOf bs zoom ls aid * localRadiusOf bs zoom ls aid"
  shows "strokeDisplacement tool bs zoom ls aid (initEngine layer eng0) mouseX mouseY prevX prevY gx gy
           = Some 0"
proof -
  let ?w = "int (width img)" and ?h = "int (height img)"
  let ?R = "localRadiusOf bs zoom ls aid"
  from stroke_displacement_cell[OF img g, of eng0 tool bs zoom ls aid mouseX mouseY prevX prevY]
  obtain idX idY vx vy where
    lm: "length idX = nat (?w * ?h)" "length idY = nat (?w * ?h)"
    and ident: "\<And>x y. 0 \<le> x \<Longrightarrow> x < ?w \<Longrightarrow> 0 \<le> y \<Longrightarrow> y < ?h \<Longrightarrow>
             idX ! nat (y * ?w + x) = of_int x \<and> idY ! nat (y * ?w + x) = of_int y"
    and sd: "strokeDisplacement tool bs zoom ls aid (initEngine layer eng0) mouseX mouseY prevX prevY gx gy
        = Some (sqrt ((vx - of_int gx) * (vx - of_int gx) + (vy - of_int gy) * (vy - of_int gy)))"
    and cell: "if inBrushBox ?R mouseX mouseY ?w ?h gx gy
        then distortCell tool (strength bs) ?R mouseX mouseY
               (mouseX - prevX) (mouseY - prevY) idX idY ?w ?h gx gy = Some (vx, vy)
        else vx = of_int gx \<and> vy = of_int gy"
    by blast
  have "vx = of_int gx \<and> vy = of_int gy"
    using cell distortCell_outside[OF g lm out, of tool "strength bs" "mouseX - prevX" "mouseY - prevY"]
      ident[OF g]
    by (cases "inBrushBox ?R mouseX mouseY ?w ?h gx gy") simp_all
  then show ?thesis unfolding sd by simp
qed

lemma stroke_displacement_inside:
  assumes img: "imageData layer = Some img"
    and R: "0 < localRadiusOf bs zoom ls aid"
    and g: "0 \<le> gx" "gx < int (width img)" "0 \<le> gy" "gy < int (height img)"
    and d: "(of_int gx - mouseX) * (of_int gx - mouseX) + (of_int gy - mouseY) * (of_int gy - mouseY)
              < localRadiusOf bs zoom ls aid * localRadiusOf bs zoom ls aid"
    and pw: "pw = brushPower (localRadiusOf bs zoom ls aid) (strength bs)
                    ((of_int gx - mouseX) * (of_int gx - mouseX)
                     + (of_int gy - mouseY) * (of_int gy - mouseY))"
    and cx: "cx = max 0 (min (of_int (int (width img) - 1)) (of_int gx - (mouseX - prevX) * pw))"
    and cy: "cy = max 0 (min (of_int (int (height img) - 1)) (of_int gy - (mouseY - prevY) * pw))"
  shows "strokeDisplacement WARP bs zoom ls aid (initEngine layer eng0) mouseX mouseY prevX prevY gx gy
           = Some (sqrt ((cx - of_int gx) * (cx - of_int gx) + (cy - of_int gy) * (cy - of_int gy)))"
proof -
  let ?w = "int (width img)" and ?h = "int (height img)"
  let ?R = "localRadiusOf bs zoom ls aid"
  have wh: "0 < ?w" "0 < ?h" using g by linarith+
  from stroke_displacement_cell[OF img g, of eng0 WARP bs zoom ls aid mouseX mouseY prevX prevY]
  obtain idX idY vx vy where
    lm: "length idX = nat (?w * ?h)" "length idY = nat (?w * ?h)"
    and ident: "\<And>x y. 0 \<le> x \<Longrightarrow> x < ?w \<Longrightarrow> 0 \<le> y \<Longrightarrow> y < ?h \<Longrightarrow>
             idX ! nat (y * ?w + x) = of_int x \<and> idY ! nat (y * ?w + x) = of_int y"
    and sd: "strokeDisplacement WARP bs zoom ls aid (initEngine layer eng0) mouseX mouseY prevX prevY gx gy
        = Some (sqrt ((vx - of_int gx) * (vx - of_int gx) + (vy - of_int gy) * (vy - of_int gy)))"
    and cell: "if inBrushBox ?R mouseX mouseY ?w ?h gx gy
        then distortCell WARP (strength bs) ?R mouseX mouseY
               (mouseX - prevX) (mouseY - prevY) idX idY ?w ?h gx gy = Some (vx, vy)
        else vx = of_int gx \<and> vy = of_int gy"
    by blast
  have iX: "\<And>x y. 0 \<le> x \<Longrightarrow> x < ?w \<Longrightarrow> 0 \<le> y \<Longrightarrow> y < ?h \<Longrightarrow> idX ! nat (y * ?w + x) = of_int x"
    using ident by blast
  have iY: "\<And>x y. 0 \<le> x \<Longrightarrow> x < ?w \<Longrightarrow> 0 \<le> y \<Longrightarrow> y < ?h \<Longrightarrow> idY ! nat (y * ?w + x) = of_int y"
    using ident by blast
  have "inBrushBox ?R mouseX mouseY ?w ?h gx gy" by (rule brush_in_box[OF R g d])
  with cell have dc: "distortCell WARP (strength bs) ?R mouseX mouseY
               (mouseX - prevX) (mouseY - prevY) idX idY ?w ?h gx gy = Some (vx, vy)"
    by simp
  have lk: "sourceLookup WARP mouseX mouseY (mouseX - prevX) (mouseY - prevY) pw gx gy
              = (of_int gx - (mouseX - prevX) * pw, of_int gy - (mouseY - prevY) * pw)"
    by (simp add: sourceLookup_def)
  from distortCell_inside[OF wh lm d, of WARP "strength bs" "mouseX - prevX" "mouseY - prevY"]
  have "sample idX ?w ?h (of_int gx - (mouseX - prevX) * pw) (of_int gy - (mouseY - prevY) * pw) = Some vx
      \<and> sample idY ?w ?h (of_int gx - (mouseX - prevX) * pw) (of_int gy - (mouseY - prevY) * pw) = Some vy"
    unfolding pw[symmetric] lk dc by simp
  moreover have "sample idX ?w ?h (of_int gx - (mouseX - prevX) * pw) (of_int gy - (mouseY - prevY) * pw)
                   = Some cx"
    unfolding cx by (rule sample_identity_x[OF wh lm(1) iX])
  moreover have "sample idY ?w ?h (of_int gx - (mouseX - prevX) * pw) (of_int gy - (mouseY - prevY) * pw)
                   = Some cy"
    unfolding cy by (rule sample_identity_y[OF wh lm(2) iY])
  ultimately have "vx = cx" "vy = cy" by simp_all
  then show ?thesis unfolding sd by simp
qed

lemma clamp_closer:
  fixes g W u :: real
  assumes "0 \<le> g" "g \<le> W"
  shows "\<bar>max 0 (min W u) - g\<bar> \<le> \<bar>u - g\<bar>"
  using assms by (auto simp: max_def min_def abs_if)

lemma smoothstep_mono:
  fixes s t :: real
  assumes "0 \<le> s" "s \<le> t" "t \<le> 1"
  shows "s * s * (3 - 2 * s) \<le> t * t * (3 - 2 * t)"
proof -
  have "t * t * (3 - 2 * t) - s * s * (3 - 2 * s)
          = (t - s) * (t * (3 - 2 * t - s) + s * (3 - 2 * s - t))"
    by (simp add: algebra_simps)
  moreover have "0 \<le> (t - s) * (t * (3 - 2 * t - s) + s * (3 - 2 * s - t))"
    using assms by (intro mult_nonneg_nonneg add_nonneg_nonneg) simp_all
  ultimately show ?thesis by linarith
qed

lemma smoothstep_nonneg:
  fixes s :: real
  assumes "0 \<le> s" "s \<le> 1"
  shows "0 \<le> s * s * (3 - 2 * s)"
  using assms by (intro mult_nonneg_nonneg) simp_all

lemma brushPower_abs_mono:
  assumes R: "0 < R" and p: "0 \<le> dp" and pq: "dp \<le> dq" and q: "dq < R * R"
  shows "\<bar>brushPower R s dq\<bar> \<le> \<bar>brushPower R s dp\<bar>"
proof -
  define fp where "fp = (R - sqrt dp) / R"
  define fq where "fq = (R - sqrt dq) / R"
  have sq: "sqrt dp \<le> sqrt dq" using pq by simp
  have "sqrt dq < sqrt (R * R)" using q by (simp only: real_sqrt_less_iff)
  then have qR: "sqrt dq < R" using R by simp
  have f: "0 \<le> fq" "fq \<le> fp" "fp \<le> 1"
    using R sq qR p by (simp_all add: fp_def fq_def divide_right_mono)
  have m: "fq * fq * (3 - 2 * fq) \<le> fp * fp * (3 - 2 * fp)" by (rule smoothstep_mono[OF f])
  have n: "0 \<le> fq * fq * (3 - 2 * fq)" using f by (intro smoothstep_nonneg) simp_all
  have bq: "brushPower R s dq = fq * fq * (3 - 2 * fq) * s"
    unfolding brushPower_def Let_def fq_def ..
  have bp: "brushPower R s dp = fp * fp * (3 - 2 * fp) * s"
    unfolding brushPower_def Let_def fp_def ..
  have n': "0 \<le> fp * fp * (3 - 2 * fp)" using n m by linarith
  have "\<bar>brushPower R s dq\<bar> = fq * fq * (3 - 2 * fq) * \<bar>s\<bar>"
    unfolding bq abs_mult[of _ s] abs_of_nonneg[OF n] ..
  also have "\<dots> \<le> fp * fp * (3 - 2 * fp) * \<bar>s\<bar>" using m by (intro mult_right_mono) simp_all
  also have "\<dots> = \<bar>brushPower R s dp\<bar>"
    unfolding bp abs_mult[of _ s] abs_of_nonneg[OF n'] ..
  finally show ?thesis .
qed

lemma radius_sq:
  assumes R: "0 < R"
  shows "sqrt d < R \<longleftrightarrow> d < R * R"
proof -
  have "sqrt d < R \<longleftrightarrow> sqrt d < sqrt (R * R)" using R by simp
  also have "\<dots> \<longleftrightarrow> d < R * R" by (rule real_sqrt_less_iff)
  finally show ?thesis .
qed

lemma square_abs_mono:
  fixes x y :: real
  assumes "\<bar>x\<bar> \<le> \<bar>y\<bar>"
  shows "x * x \<le> y * y"
proof -
  have "\<bar>x\<bar> * \<bar>x\<bar> \<le> \<bar>y\<bar> * \<bar>y\<bar>" using assms by (intro mult_mono) simp_all
  then show ?thesis by (simp only: abs_mult_self_eq)
qed

lemma norm_scaled:
  fixes dx dy p :: real
  shows "sqrt ((dx * p) * (dx * p) + (dy * p) * (dy * p)) = \<bar>p\<bar> * sqrt (dx * dx + dy * dy)"
proof -
  have "(dx * p) * (dx * p) + (dy * p) * (dy * p) = (p * p) * (dx * dx + dy * dy)"
    by (simp add: algebra_simps)
  then have "sqrt ((dx * p) * (dx * p) + (dy * p) * (dy * p)) = sqrt (p * p) * sqrt (dx * dx + dy * dy)"
    by (simp only: real_sqrt_mult)
  also have "sqrt (p * p) = \<bar>p\<bar>" by (rule real_sqrt_abs2)
  finally show ?thesis .
qed

lemma warp_falloff_pair:
  assumes img: "imageData layer = Some img"
    and R: "0 < localRadiusOf bs zoom ls aid"
    and p: "0 \<le> px" "px < int (width img)" "0 \<le> py" "py < int (height img)"
    and q: "0 \<le> qx" "qx < int (width img)" "0 \<le> qy" "qy < int (height img)"
    and dpq: "distanceToCentre mouseX mouseY px py \<le> distanceToCentre mouseX mouseY qx qy"
    and dq: "distanceToCentre mouseX mouseY qx qy < localRadiusOf bs zoom ls aid"
    and pw: "pw = brushPower (localRadiusOf bs zoom ls aid) (strength bs)
                    ((of_int px - mouseX) * (of_int px - mouseX)
                     + (of_int py - mouseY) * (of_int py - mouseY))"
    and lk: "sourceLookup WARP mouseX mouseY (mouseX - prevX) (mouseY - prevY) pw px py
               = (lookupX, lookupY)"
    and inside: "0 \<le> lookupX" "lookupX \<le> of_int (int (width img) - 1)"
      "0 \<le> lookupY" "lookupY \<le> of_int (int (height img) - 1)"
  shows "\<exists>a b.
      strokeDisplacement WARP bs zoom ls aid (initEngine layer eng0) mouseX mouseY prevX prevY px py
        = Some a
    \<and> a = \<bar>pw\<bar> * sqrt ((mouseX - prevX) * (mouseX - prevX) + (mouseY - prevY) * (mouseY - prevY))
    \<and> strokeDisplacement WARP bs zoom ls aid (initEngine layer eng0) mouseX mouseY prevX prevY qx qy
        = Some b
    \<and> b \<le> a"
proof -
  let ?R = "localRadiusOf bs zoom ls aid"
  let ?W = "of_int (int (width img) - 1) :: real" and ?H = "of_int (int (height img) - 1) :: real"
  define dx where "dx = mouseX - prevX"
  define dy where "dy = mouseY - prevY"
  define dP where "dP = (of_int px - mouseX) * (of_int px - mouseX)
                     + (of_int py - mouseY) * (of_int py - mouseY)"
  define dQ where "dQ = (of_int qx - mouseX) * (of_int qx - mouseX)
                     + (of_int qy - mouseY) * (of_int qy - mouseY)"
  define pq where "pq = brushPower ?R (strength bs) dQ"
  have P0: "0 \<le> dP" unfolding dP_def by simp
  have PQ: "dP \<le> dQ" using dpq unfolding distanceToCentre_def dP_def[symmetric] dQ_def[symmetric]
    by (simp only: real_sqrt_le_iff)
  have QR: "dQ < ?R * ?R"
    using dq unfolding distanceToCentre_def dQ_def[symmetric] by (simp only: radius_sq[OF R])
  have PR: "dP < ?R * ?R" using PQ QR by linarith
  have pwP: "pw = brushPower ?R (strength bs) dP" unfolding dP_def by (rule pw)
  have mono: "\<bar>pq\<bar> \<le> \<bar>pw\<bar>" unfolding pq_def pwP by (rule brushPower_abs_mono[OF R P0 PQ QR])
  have lkv: "lookupX = of_int px - dx * pw" "lookupY = of_int py - dy * pw"
    using lk by (simp_all add: sourceLookup_def dx_def dy_def)
  define ax where "ax = max 0 (min ?W (of_int px - dx * pw))"
  define ay where "ay = max 0 (min ?H (of_int py - dy * pw))"
  define bx where "bx = max 0 (min ?W (of_int qx - dx * pq))"
  define by' where "by' = max 0 (min ?H (of_int qy - dy * pq))"
  define a where "a = sqrt ((ax - of_int px) * (ax - of_int px) + (ay - of_int py) * (ay - of_int py))"
  define b where "b = sqrt ((bx - of_int qx) * (bx - of_int qx) + (by' - of_int qy) * (by' - of_int qy))"
  have sa: "strokeDisplacement WARP bs zoom ls aid (initEngine layer eng0) mouseX mouseY prevX prevY px py
        = Some a"
    unfolding a_def
    by (rule stroke_displacement_inside[OF img R p PR[unfolded dP_def] pw
          ax_def[unfolded dx_def] ay_def[unfolded dy_def]])
  have sb: "strokeDisplacement WARP bs zoom ls aid (initEngine layer eng0) mouseX mouseY prevX prevY qx qy
        = Some b"
    unfolding b_def
    by (rule stroke_displacement_inside[OF img R q QR[unfolded dQ_def] pq_def[unfolded dQ_def]
          bx_def[unfolded dx_def] by'_def[unfolded dy_def]])
  have axv: "ax - of_int px = - (dx * pw)" using inside(1,2) unfolding lkv ax_def by simp
  have ayv: "ay - of_int py = - (dy * pw)" using inside(3,4) unfolding lkv ay_def by simp
  have av: "a = \<bar>pw\<bar> * sqrt (dx * dx + dy * dy)"
    unfolding a_def axv ayv using norm_scaled[of dx pw dy] by simp
  have qr: "(0 :: real) \<le> of_int qx" "of_int qx \<le> ?W" "(0 :: real) \<le> of_int qy" "of_int qy \<le> ?H"
    using q by simp_all
  have "\<bar>bx - of_int qx\<bar> \<le> \<bar>(of_int qx - dx * pq) - of_int qx\<bar>"
    unfolding bx_def by (rule clamp_closer[OF qr(1,2)])
  also have "\<dots> = \<bar>dx\<bar> * \<bar>pq\<bar>" by (simp add: abs_mult)
  also have "\<dots> \<le> \<bar>dx\<bar> * \<bar>pw\<bar>" using mono by (intro mult_left_mono) simp_all
  also have "\<dots> = \<bar>ax - of_int px\<bar>" unfolding axv by (simp add: abs_mult)
  finally have cxm: "(bx - of_int qx) * (bx - of_int qx) \<le> (ax - of_int px) * (ax - of_int px)"
    by (rule square_abs_mono)
  have "\<bar>by' - of_int qy\<bar> \<le> \<bar>(of_int qy - dy * pq) - of_int qy\<bar>"
    unfolding by'_def by (rule clamp_closer[OF qr(3,4)])
  also have "\<dots> = \<bar>dy\<bar> * \<bar>pq\<bar>" by (simp add: abs_mult)
  also have "\<dots> \<le> \<bar>dy\<bar> * \<bar>pw\<bar>" using mono by (intro mult_left_mono) simp_all
  also have "\<dots> = \<bar>ay - of_int py\<bar>" unfolding ayv by (simp add: abs_mult)
  finally have cym: "(by' - of_int qy) * (by' - of_int qy) \<le> (ay - of_int py) * (ay - of_int py)"
    by (rule square_abs_mono)
  have ba: "b \<le> a" unfolding a_def b_def using cxm cym by (intro real_sqrt_le_mono add_mono)
  from sa av[unfolded dx_def dy_def] sb ba show ?thesis by blast
qed

lemma warp_falloff_rim:
  assumes img: "imageData layer = Some img"
    and R: "0 < localRadiusOf bs zoom ls aid"
    and r: "0 \<le> rx" "rx < int (width img)" "0 \<le> ry" "ry < int (height img)"
    and dr: "localRadiusOf bs zoom ls aid \<le> distanceToCentre mouseX mouseY rx ry"
  shows "strokeDisplacement tool bs zoom ls aid (initEngine layer eng0) mouseX mouseY prevX prevY rx ry
           = Some 0"
proof -
  let ?R = "localRadiusOf bs zoom ls aid"
  define dR where "dR = (of_int rx - mouseX) * (of_int rx - mouseX)
                     + (of_int ry - mouseY) * (of_int ry - mouseY)"
  have RR: "\<not> dR < ?R * ?R"
    using dr unfolding distanceToCentre_def dR_def[symmetric] radius_sq[OF R, symmetric] by linarith
  show ?thesis by (rule stroke_displacement_outside[OF img r RR[unfolded dR_def]])
qed

text \<open>
  Claim C6. In exact real arithmetic, for one WARP stroke of radius \<open>R > 0\<close> on a freshly
  initialised engine (identity map):

  \<^item> for every two pixels \<open>p\<close> and \<open>q\<close> of the raster at distances \<open>d\<^sub>p \<le> d\<^sub>q < R\<close> from the brush
    centre such that the lookup point of the nearer pixel \<open>p\<close> lies inside the raster, the
    displacement magnitude at \<open>p\<close> is \<open>\<bar>power\<bar>\<close> times the length of the stroke delta, with
    \<open>power = strength * smoothstep ((R - d\<^sub>p) / R)\<close> as brushPower computes it, and the
    displacement magnitude at \<open>q\<close> is not larger;

  \<^item> independently of the first part, every pixel \<open>r\<close> of the raster at distance \<open>R\<close> or more
    has displacement exactly 0.

  The two parts share no hypothesis but the raster and the positive radius. The rounding of
  the entries to 32-bit floats when they are stored in the map is outside this statement.
\<close>

theorem warp_falloff_monotone_inside_raster:
  assumes img: "imageData layer = Some img"
    and R: "0 < localRadiusOf bs zoom ls aid"
  shows "(\<forall>px py qx qy pw lookupX lookupY.
            0 \<le> px \<and> px < int (width img) \<and> 0 \<le> py \<and> py < int (height img)
          \<longrightarrow> 0 \<le> qx \<and> qx < int (width img) \<and> 0 \<le> qy \<and> qy < int (height img)
          \<longrightarrow> distanceToCentre mouseX mouseY px py \<le> distanceToCentre mouseX mouseY qx qy
          \<longrightarrow> distanceToCentre mouseX mouseY qx qy < localRadiusOf bs zoom ls aid
          \<longrightarrow> pw = brushPower (localRadiusOf bs zoom ls aid) (strength bs)
                    ((of_int px - mouseX) * (of_int px - mouseX)
                     + (of_int py - mouseY) * (of_int py - mouseY))
          \<longrightarrow> sourceLookup WARP mouseX mouseY (mouseX - prevX) (mouseY - prevY) pw px py
                = (lookupX, lookupY)
          \<longrightarrow> 0 \<le> lookupX \<and> lookupX \<le> of_int (int (width img) - 1)
              \<and> 0 \<le> lookupY \<and> lookupY \<le> of_int (int (height img) - 1)
          \<longrightarrow> (\<exists>a b.
                strokeDisplacement WARP bs zoom ls aid (initEngine layer eng0)
                    mouseX mouseY prevX prevY px py = Some a
              \<and> a = \<bar>pw\<bar> * sqrt ((mouseX - prevX) * (mouseX - prevX)
                                 + (mouseY - prevY) * (mouseY - prevY))
              \<and> strokeDisplacement WARP bs zoom ls aid (initEngine layer eng0)
                    mouseX mouseY prevX prevY qx qy = Some b
              \<and> b \<le> a))
       \<and> (\<forall>rx ry.
            0 \<le> rx \<and> rx < int (width img) \<and> 0 \<le> ry \<and> ry < int (height img)
          \<longrightarrow> localRadiusOf bs zoom ls aid \<le> distanceToCentre mouseX mouseY rx ry
          \<longrightarrow> strokeDisplacement WARP bs zoom ls aid (initEngine layer eng0)
                mouseX mouseY prevX prevY rx ry = Some 0)"
proof (intro conjI allI impI)
  fix px py qx qy :: int and pw lookupX lookupY :: real
  assume p: "0 \<le> px \<and> px < int (width img) \<and> 0 \<le> py \<and> py < int (height img)"
    and q: "0 \<le> qx \<and> qx < int (width img) \<and> 0 \<le> qy \<and> qy < int (height img)"
    and dpq: "distanceToCentre mouseX mouseY px py \<le> distanceToCentre mouseX mouseY qx qy"
    and dq: "distanceToCentre mouseX mouseY qx qy < localRadiusOf bs zoom ls aid"
    and pw: "pw = brushPower (localRadiusOf bs zoom ls aid) (strength bs)
                    ((of_int px - mouseX) * (of_int px - mouseX)
                     + (of_int py - mouseY) * (of_int py - mouseY))"
    and lk: "sourceLookup WARP mouseX mouseY (mouseX - prevX) (mouseY - prevY) pw px py
                = (lookupX, lookupY)"
    and inside: "0 \<le> lookupX \<and> lookupX \<le> of_int (int (width img) - 1)
              \<and> 0 \<le> lookupY \<and> lookupY \<le> of_int (int (height img) - 1)"
  have p': "0 \<le> px" "px < int (width img)" "0 \<le> py" "py < int (height img)" using p by blast+
  have q': "0 \<le> qx" "qx < int (width img)" "0 \<le> qy" "qy < int (height img)" using q by blast+
  have i': "0 \<le> lookupX" "lookupX \<le> of_int (int (width img) - 1)"
      "0 \<le> lookupY" "lookupY \<le> of_int (int (height img) - 1)" using inside by blast+
  show "\<exists>a b.
                strokeDisplacement WARP bs zoom ls aid (initEngine layer eng0)
                    mouseX mouseY prevX prevY px py = Some a
              \<and> a = \<bar>pw\<bar> * sqrt ((mouseX - prevX) * (mouseX - prevX)
                                 + (mouseY - prevY) * (mouseY - prevY))
              \<and> strokeDisplacement WARP bs zoom ls aid (initEngine layer eng0)
                    mouseX mouseY prevX prevY qx qy = Some b
              \<and> b \<le> a"
    by (rule warp_falloff_pair[OF img R p' q' dpq dq pw lk i'])
next
  fix rx ry :: int
  assume r: "0 \<le> rx \<and> rx < int (width img) \<and> 0 \<le> ry \<and> ry < int (height img)"
    and dr: "localRadiusOf bs zoom ls aid \<le> distanceToCentre mouseX mouseY rx ry"
  have r': "0 \<le> rx" "rx < int (width img)" "0 \<le> ry" "ry < int (height img)" using r by blast+
  show "strokeDisplacement WARP bs zoom ls aid (initEngine layer eng0)
                mouseX mouseY prevX prevY rx ry = Some 0"
    by (rule warp_falloff_rim[OF img R r' dr])
qed

theorem warp_falloff_monotone_inside_raster_witness:
  "imageData scenario_layer = Some \<lparr>data = 0, width = 4, height = 4\<rparr>
   \<and> 0 < localRadiusOf (example_brush 1) 1 [scenario_layer] ''a''
   \<and> distanceToCentre 2 2 2 2 \<le> distanceToCentre 2 2 1 2
   \<and> distanceToCentre 2 2 1 2 < localRadiusOf (example_brush 1) 1 [scenario_layer] ''a''
   \<and> localRadiusOf (example_brush 1) 1 [scenario_layer] ''a'' \<le> distanceToCentre 2 2 0 2
   \<and> 1 = brushPower (localRadiusOf (example_brush 1) 1 [scenario_layer] ''a'')
            (strength (example_brush 1))
            ((of_int 2 - 2) * (of_int 2 - 2) + (of_int 2 - 2) * (of_int 2 - 2))
   \<and> sourceLookup WARP 2 2 (2 - 1) (2 - 2) 1 2 2 = (1, 2)
   \<and> (\<exists>a b.
        strokeDisplacement WARP (example_brush 1) 1 [scenario_layer] ''a''
            (initEngine scenario_layer example_engine) 2 2 1 2 2 2 = Some a
      \<and> a = \<bar>1\<bar> * sqrt ((2 - 1) * (2 - 1) + (2 - 2) * (2 - 2))
      \<and> strokeDisplacement WARP (example_brush 1) 1 [scenario_layer] ''a''
            (initEngine scenario_layer example_engine) 2 2 1 2 1 2 = Some b
      \<and> b \<le> a)
   \<and> strokeDisplacement WARP (example_brush 1) 1 [scenario_layer] ''a''
            (initEngine scenario_layer example_engine) 2 2 1 2 0 2 = Some 0"
proof -
  let ?img = "\<lparr>data = 0 :: nat, width = 4, height = 4\<rparr>"
  have R: "localRadiusOf (example_brush 1) 1 [scenario_layer] ''a'' = 2"
    by (simp add: localRadiusOf_def example_brush_def scenario_layer_def example_layer_def)
  have four: "sqrt 4 = 2" using real_sqrt_abs2[of 2] by simp
  have i: "imageData scenario_layer = Some ?img" by (simp add: scenario_layer_def)
  have r: "0 < localRadiusOf (example_brush 1) 1 [scenario_layer] ''a''" unfolding R by simp
  have p: "0 \<le> (2 :: int) \<and> (2 :: int) < int (width ?img) \<and> 0 \<le> (2 :: int) \<and> (2 :: int) < int (height ?img)"
    by simp
  have q: "0 \<le> (1 :: int) \<and> (1 :: int) < int (width ?img) \<and> 0 \<le> (2 :: int) \<and> (2 :: int) < int (height ?img)"
    by simp
  have o: "0 \<le> (0 :: int) \<and> (0 :: int) < int (width ?img) \<and> 0 \<le> (2 :: int) \<and> (2 :: int) < int (height ?img)"
    by simp
  have d: "distanceToCentre 2 2 2 2 \<le> distanceToCentre 2 2 1 2"
    "distanceToCentre 2 2 1 2 < localRadiusOf (example_brush 1) 1 [scenario_layer] ''a''"
    "localRadiusOf (example_brush 1) 1 [scenario_layer] ''a'' \<le> distanceToCentre 2 2 0 2"
    unfolding R by (simp_all add: distanceToCentre_def four)
  have w: "1 = brushPower (localRadiusOf (example_brush 1) 1 [scenario_layer] ''a'')
            (strength (example_brush 1))
            ((of_int 2 - 2) * (of_int 2 - 2) + (of_int 2 - 2) * (of_int 2 - 2))"
    unfolding R by (simp add: brushPower_def Let_def example_brush_def)
  have k: "sourceLookup WARP 2 2 (2 - 1) (2 - 2) 1 2 2 = (1, 2)"
    by (simp add: sourceLookup_def)
  have n: "(0 :: real) \<le> 1 \<and> (1 :: real) \<le> of_int (int (width ?img) - 1)
    \<and> (0 :: real) \<le> 2 \<and> (2 :: real) \<le> of_int (int (height ?img) - 1)"
    by simp
  note t = warp_falloff_monotone_inside_raster[OF i r,
      where mouseX = 2 and mouseY = 2 and prevX = 1 and prevY = 2 and ?eng0.0 = example_engine]
  note pair = conjunct1[OF t, rule_format, OF p q d(1) d(2) w k n]
  note rim = conjunct2[OF t, rule_format, OF o d(3)]
  from i r d w k pair rim show ?thesis by (intro conjI)
qed

text \<open>
  As the specification words it, without the condition on the lookup point, the falloff
  property fails at the edge of the raster, where \<open>sample\<close> clamps the lookup point. On the
  \<open>2 \<times> 2\<close> identity map, a WARP stroke of strength 1 and radius 2 from \<open>(-1, 0)\<close> to the
  centre \<open>(0, 0)\<close> leaves the pixel \<open>(0, 0)\<close>, at distance 0, with displacement 0, because its
  lookup point \<open>(-1, 0)\<close> is clamped to \<open>(0, 0)\<close>; the pixel \<open>(1, 0)\<close>, at distance 1, gets the
  displacement \<open>1 / 2\<close>.
\<close>

theorem warp_falloff_not_monotone_at_raster_edge:
  "localRadiusOf (example_brush 1) 1 [example_layer] ''a'' = 2
   \<and> distanceToCentre 0 0 0 0 = 0
   \<and> distanceToCentre 0 0 1 0 = 1
   \<and> strokeDisplacement WARP (example_brush 1) 1 [example_layer] ''a''
        (initEngine example_layer example_engine) 0 0 (- 1) 0 0 0 = Some 0
   \<and> strokeDisplacement WARP (example_brush 1) 1 [example_layer] ''a''
        (initEngine example_layer example_engine) 0 0 (- 1) 0 1 0 = Some (1 / 2)"
proof -
  have R: "localRadiusOf (example_brush 1) 1 [example_layer] ''a'' = 2"
    by (simp add: localRadiusOf_def example_brush_def example_layer_def)
  have i: "imageData example_layer = Some example_image" by (simp add: example_layer_def)
  have r: "0 < localRadiusOf (example_brush 1) 1 [example_layer] ''a''" unfolding R by simp
  have s: "strength (example_brush 1) = 1" by (simp add: example_brush_def)
  have p: "0 \<le> (0 :: int)" "(0 :: int) < int (width example_image)"
    "0 \<le> (0 :: int)" "(0 :: int) < int (height example_image)"
    by (simp_all add: example_image_def)
  have q: "0 \<le> (1 :: int)" "(1 :: int) < int (width example_image)"
    "0 \<le> (0 :: int)" "(0 :: int) < int (height example_image)"
    by (simp_all add: example_image_def)
  have dp: "(of_int 0 - 0) * (of_int 0 - 0) + (of_int 0 - 0) * (of_int 0 - (0 :: real))
              < localRadiusOf (example_brush 1) 1 [example_layer] ''a''
                * localRadiusOf (example_brush 1) 1 [example_layer] ''a''"
    unfolding R by simp
  have dq: "(of_int 1 - 0) * (of_int 1 - 0) + (of_int 0 - 0) * (of_int 0 - (0 :: real))
              < localRadiusOf (example_brush 1) 1 [example_layer] ''a''
                * localRadiusOf (example_brush 1) 1 [example_layer] ''a''"
    unfolding R by simp
  have d0: "distanceToCentre 0 0 0 0 = 0" by (simp add: distanceToCentre_def)
  have d1: "distanceToCentre 0 0 1 0 = 1" by (simp add: distanceToCentre_def)
  have a: "strokeDisplacement WARP (example_brush 1) 1 [example_layer] ''a''
        (initEngine example_layer example_engine) 0 0 (- 1) 0 0 0 = Some 0"
    unfolding stroke_displacement_inside[OF i r p dp refl refl refl, of example_engine "- 1" 0]
    unfolding R s by (simp add: brushPower_def Let_def example_image_def)
  have quarter: "sqrt (1 / 4) = 1 / 2" using real_sqrt_abs2[of "1 / 2"] by simp
  have b: "strokeDisplacement WARP (example_brush 1) 1 [example_layer] ''a''
        (initEngine example_layer example_engine) 0 0 (- 1) 0 1 0 = Some (1 / 2)"
    unfolding stroke_displacement_inside[OF i r q dq refl refl refl, of example_engine "- 1" 0]
    unfolding R s by (simp add: brushPower_def Let_def example_image_def quarter)
  from R d0 d1 a b show ?thesis by (intro conjI)
qed

lemma roundTiesToEven_of_int [simp]: "roundTiesToEven (of_int n) = n"
  by (simp add: roundTiesToEven_def)

lemma roundToPrecision_zero [simp]: "roundToPrecision p 0 = 0"
  by (simp add: roundToPrecision_def)

lemma round64_zero [simp]: "round64 0 = 0"
  by (simp add: round64_def)

lemma round32_zero [simp]: "round32 0 = 0"
  by (simp add: round32_def)



text \<open>A value \<open>m * 2\<^sup>k\<close> with \<open>\<bar>m\<bar> < 2\<^sup>p\<close> has precision \<open>p\<close>: rounding leaves it as it is.\<close>

lemma roundToPrecision_fixed:
  assumes m: "\<bar>m\<bar> < 2 ^ p" and p: "0 < p"
  shows "roundToPrecision p (of_int m * 2 powr of_int k) = of_int m * 2 powr of_int k"
proof (cases "m = 0")
  case True
  then show ?thesis by simp
next
  case False
  define x :: real where "x = of_int m * 2 powr of_int k"
  define e where "e = \<lfloor>log 2 \<bar>x\<bar>\<rfloor>"
  have m1: "1 \<le> \<bar>real_of_int m\<bar>" using False by (simp add: abs_if; linarith)
  have mp: "\<bar>real_of_int m\<bar> < 2 ^ p"
  proof -
    have "real_of_int \<bar>m\<bar> < real_of_int (2 ^ p)" using m by (simp only: of_int_less_iff)
    then show ?thesis by simp
  qed
  have ax: "\<bar>x\<bar> = \<bar>real_of_int m\<bar> * 2 powr of_int k" by (simp add: x_def abs_mult)
  have xpos: "0 < \<bar>x\<bar>" using m1 by (simp add: ax)
  have x0: "x \<noteq> 0" using xpos by auto
  have up: "\<bar>x\<bar> < 2 powr of_int (int p + k)"
  proof -
    have "\<bar>x\<bar> < 2 ^ p * 2 powr of_int k" unfolding ax using mp by (intro mult_strict_right_mono) simp_all
    also have "2 ^ p * 2 powr real_of_int k = 2 powr of_int (int p + k)"
      by (simp add: powr_add powr_realpow)
    finally show ?thesis .
  qed
  have "log 2 \<bar>x\<bar> < of_int (int p + k)"
    using up xpos by (simp add: log_less_iff)
  then have "e < int p + k" unfolding e_def by (simp add: floor_less_iff)
  then have d: "0 \<le> k - (e - int p + 1)" by simp
  define j where "j = nat (k - (e - int p + 1))"
  have kj: "k = (e - int p + 1) + int j" using d by (simp add: j_def)
  have pw: "2 powr real_of_int k = 2 powr of_int (e - int p + 1) * 2 ^ j"
  proof -
    have "2 powr real_of_int k = 2 powr (of_int (e - int p + 1) + real j)"
      by (subst kj) simp
    also have "\<dots> = 2 powr of_int (e - int p + 1) * 2 powr real j" by (rule powr_add)
    also have "2 powr real j = (2 :: real) ^ j" by (simp add: powr_realpow)
    finally show ?thesis .
  qed
  have q: "x / 2 powr of_int (e - int p + 1) = of_int (m * 2 ^ j)"
    unfolding x_def pw by simp
  have "roundToPrecision p x
          = of_int (roundTiesToEven (x / 2 powr of_int (e - int p + 1))) * 2 powr of_int (e - int p + 1)"
    using x0 by (simp add: roundToPrecision_def Let_def e_def)
  also have "\<dots> = of_int (m * 2 ^ j) * 2 powr of_int (e - int p + 1)"
    unfolding q roundTiesToEven_of_int ..
  also have "\<dots> = x" unfolding x_def pw by simp
  finally show ?thesis unfolding x_def .
qed

lemma round64_fixed:
  assumes "\<bar>m\<bar> < 2 ^ 53"
  shows "round64 (of_int m * 2 powr of_int k) = of_int m * 2 powr of_int k"
  unfolding round64_def using assms by (intro roundToPrecision_fixed) simp_all

lemma round32_fixed:
  assumes "\<bar>m\<bar> < 2 ^ 24"
  shows "round32 (of_int m * 2 powr of_int k) = of_int m * 2 powr of_int k"
  unfolding round32_def using assms by (intro roundToPrecision_fixed) simp_all

lemma round64_of_int:
  assumes "\<bar>n\<bar> < 2 ^ 53"
  shows "round64 (of_int n) = of_int n"
  using round64_fixed[OF assms, of 0] by simp


lemma region_loop_spec:
  fixes D :: "int \<Rightarrow> int \<Rightarrow> (real \<times> real) option"
  assumes rw: "0 < regionW" and rh: "0 < regionH"
    and ok: "\<And>x y. 0 \<le> x \<Longrightarrow> x < regionW \<Longrightarrow> 0 \<le> y \<Longrightarrow> y < regionH \<Longrightarrow>
               \<exists>v. D x y = Some v"
  shows "\<exists>tX tY. for_loop (\<lambda>y. for_loop (\<lambda>x (tempMapX, tempMapY). do {
                 (vx, vy) \<leftarrow> D x y;
                 Some (arr_set tempMapX (y * regionW + x) vx, arr_set tempMapY (y * regionW + x) vy)
               }) [0..regionW - 1]) [0..regionH - 1]
               (replicate (nat (regionW * regionH)) 0, replicate (nat (regionW * regionH)) 0) = Some (tX, tY)
           \<and> length tX = nat (regionW * regionH) \<and> length tY = nat (regionW * regionH)
           \<and> (\<forall>x y. 0 \<le> x \<longrightarrow> x < regionW \<longrightarrow> 0 \<le> y \<longrightarrow> y < regionH \<longrightarrow>
                 D x y
                   = Some (tX ! nat (y * regionW + x), tY ! nat (y * regionW + x)))"
proof -
  let ?n = "nat (regionW * regionH)"
  let ?D = "D"
  let ?Inv = "\<lambda>t :: real list \<times> real list. length (fst t) = ?n \<and> length (snd t) = ?n"
  let ?Q = "\<lambda>(y, x) (t :: real list \<times> real list).
               ?D x y = Some (fst t ! nat (y * regionW + x), snd t ! nat (y * regionW + x))"
  have pos: "0 < regionW * regionH" using rw rh by simp
  have inrange: "0 \<le> y * regionW + x \<and> y * regionW + x < regionW * regionH"
    if "0 \<le> x" "x < regionW" "0 \<le> y" "y < regionH" for x y
    using idx_bound[OF that] by simp
  have "\<exists>t. for_loop (\<lambda>y. for_loop (\<lambda>x (tempMapX, tempMapY). do {
                 (vx, vy) \<leftarrow> D x y;
                 Some (arr_set tempMapX (y * regionW + x) vx, arr_set tempMapY (y * regionW + x) vy)
               }) [0..regionW - 1]) [0..regionH - 1]
               (replicate (nat (regionW * regionH)) 0, replicate (nat (regionW * regionH)) 0) = Some t
          \<and> ?Inv t \<and> (\<forall>c\<in>set (List.product [0..regionH - 1] [0..regionW - 1]). ?Q c t)"
    unfolding for_loop_product
  proof (rule for_loop_establish[where Inv = ?Inv and Q = ?Q])
    show "distinct (List.product [0..regionH - 1] [0..regionW - 1])" by (rule cells_distinct)
    show "?Inv (replicate ?n 0, replicate ?n 0)" by simp
  next
    fix c :: "int \<times> int" and t :: "real list \<times> real list"
    assume c: "c \<in> set (List.product [0..regionH - 1] [0..regionW - 1])" and inv: "?Inv t"
    obtain y x where cx: "c = (y, x)" by (cases c)
    obtain tX tY where tt: "t = (tX, tY)" by (cases t)
    have r: "0 \<le> x" "x < regionW" "0 \<le> y" "y < regionH" using c cx by auto
    from ok[OF r] obtain vx vy where v: "?D x y = Some (vx, vy)" by auto
    have ir: "0 \<le> y * regionW + x" "y * regionW + x < regionW * regionH"
      using inrange[OF r] by auto
    have lt: "nat (y * regionW + x) < length tX" "nat (y * regionW + x) < length tY"
      using ir pos inv tt by (simp_all add: zless_nat_conj)
    have ir': "y * regionW + x < int (length tX)" "y * regionW + x < int (length tY)"
      using ir pos inv tt by simp_all
    show "\<exists>t'. (case c of (y, x) \<Rightarrow> \<lambda>(tempMapX, tempMapY).
              D x y
              \<bind> (\<lambda>(vx, vy). Some (arr_set tempMapX (y * regionW + x) vx,
                                       arr_set tempMapY (y * regionW + x) vy))) t = Some t'
            \<and> ?Inv t' \<and> ?Q c t'"
      using v inv lt ir ir' by (simp add: cx tt nth_arr_set)
  next
    fix c c' :: "int \<times> int" and t t' :: "real list \<times> real list"
    assume c: "c \<in> set (List.product [0..regionH - 1] [0..regionW - 1])"
      and c': "c' \<in> set (List.product [0..regionH - 1] [0..regionW - 1])"
      and ne: "c \<noteq> c'" and inv: "?Inv t" and q: "?Q c t"
      and step: "(case c' of (y, x) \<Rightarrow> \<lambda>(tempMapX, tempMapY).
              D x y
              \<bind> (\<lambda>(vx, vy). Some (arr_set tempMapX (y * regionW + x) vx,
                                       arr_set tempMapY (y * regionW + x) vy))) t = Some t'"
    obtain y x where cx: "c = (y, x)" by (cases c)
    obtain y' x' where cx': "c' = (y', x')" by (cases c')
    obtain tX tY where tt: "t = (tX, tY)" by (cases t)
    have r: "0 \<le> x" "x < regionW" "0 \<le> y" "y < regionH" using c cx by auto
    have r': "0 \<le> x'" "x' < regionW" "0 \<le> y'" "y' < regionH" using c' cx' by auto
    from ok[OF r'] obtain vx vy where v: "?D x' y' = Some (vx, vy)" by auto
    have t': "t' = (arr_set tX (y' * regionW + x') vx, arr_set tY (y' * regionW + x') vy)"
      using step v by (simp add: cx' tt)
    have ir: "0 \<le> y * regionW + x" "y * regionW + x < regionW * regionH"
      using inrange[OF r] by auto
    have lt: "nat (y * regionW + x) < length tX" "nat (y * regionW + x) < length tY"
      using ir pos inv tt by (simp_all add: zless_nat_conj)
    have ir': "y * regionW + x < int (length tX)" "y * regionW + x < int (length tY)"
      using ir pos inv tt by simp_all
    have neq: "y' * regionW + x' \<noteq> int (nat (y * regionW + x))"
    proof
      assume "y' * regionW + x' = int (nat (y * regionW + x))"
      then have "y' * regionW + x' = y * regionW + x" using ir by simp
      from idx_inj[OF r'(1,2) r(1,2) this] show False using ne cx cx' by simp
    qed
    show "?Q c t'"
      using q lt neq by (simp add: cx tt t' nth_arr_set)
  qed
  then obtain t where t: "for_loop (\<lambda>y. for_loop (\<lambda>x (tempMapX, tempMapY). do {
                 (vx, vy) \<leftarrow> D x y;
                 Some (arr_set tempMapX (y * regionW + x) vx, arr_set tempMapY (y * regionW + x) vy)
               }) [0..regionW - 1]) [0..regionH - 1]
               (replicate (nat (regionW * regionH)) 0, replicate (nat (regionW * regionH)) 0) = Some t" "?Inv t"
      "\<forall>c\<in>set (List.product [0..regionH - 1] [0..regionW - 1]). ?Q c t"
    by blast
  have "?D x y = Some (fst t ! nat (y * regionW + x), snd t ! nat (y * regionW + x))"
    if "0 \<le> x" "x < regionW" "0 \<le> y" "y < regionH" for x y
  proof -
    have "(y, x) \<in> set (List.product [0..regionH - 1] [0..regionW - 1])" using that by auto
    with t(3) have "?Q (y, x) t" by blast
    then show ?thesis by simp
  qed
  with t(1,2) show ?thesis by (cases t) auto
qed

lemma sample64_Some:
  assumes "0 < w" "0 < h" "length arr = nat (w * h)"
  shows "\<exists>v. sample64 arr w h u v' = Some v"
  unfolding sample64_def Let_def
  by (simp only: arr_get_clamped[OF assms] bind.bind_lunit) blast

lemma distortCell64_Some:
  assumes "0 \<le> gx" "gx < w" "0 \<le> gy" "gy < h"
    and "length mapX = nat (w * h)" "length mapY = nat (w * h)"
  shows "\<exists>v. distortCell64 tool s localRadius mouseX mouseY dx dy mapX mapY w h gx gy = Some v"
proof -
  have wh: "0 < w" "0 < h" using assms by auto
  have b: "0 \<le> gy * w + gx" "gy * w + gx < w * h" using idx_bound[OF assms(1-4)] by blast+
  have gX: "arr_get mapX (gy * w + gx) = Some (mapX ! nat (gy * w + gx))"
    using b assms(5) by (intro arr_get_Some) simp_all
  have gY: "arr_get mapY (gy * w + gx) = Some (mapY ! nat (gy * w + gx))"
    using b assms(6) by (intro arr_get_Some) simp_all
  obtain lx ly where lk: "sourceLookup64 tool mouseX mouseY dx dy
      (brushPower64 localRadius s
         (round64 (round64 (round64 (of_int gx - mouseX) * round64 (of_int gx - mouseX))
                 + round64 (round64 (of_int gy - mouseY) * round64 (of_int gy - mouseY)))))
      gx gy = (lx, ly)"
    by (cases "sourceLookup64 tool mouseX mouseY dx dy
      (brushPower64 localRadius s
         (round64 (round64 (round64 (of_int gx - mouseX) * round64 (of_int gx - mouseX))
                 + round64 (round64 (of_int gy - mouseY) * round64 (of_int gy - mouseY)))))
      gx gy")
  from sample64_Some[OF wh assms(5), of lx ly] obtain vx where vx: "sample64 mapX w h lx ly = Some vx"
    by blast
  from sample64_Some[OF wh assms(6), of lx ly] obtain vy where vy: "sample64 mapY w h lx ly = Some vy"
    by blast
  show ?thesis
    unfolding distortCell64_def Let_def lk prod.case
    by (simp add: gX gY vx vy)
qed

lemma distortRegion64_spec:
  assumes rw: "0 < regionW" and rh: "0 < regionH"
    and ok: "\<And>x y. 0 \<le> x \<Longrightarrow> x < regionW \<Longrightarrow> 0 \<le> y \<Longrightarrow> y < regionH \<Longrightarrow>
               \<exists>v. distortCell64 tool s localRadius mouseX mouseY dx dy mapX mapY w h (minX + x) (minY + y) = Some v"
  shows "\<exists>tX tY. distortRegion64 tool s localRadius mouseX mouseY dx dy mapX mapY w h
                     minX minY regionW regionH = Some (tX, tY)
           \<and> length tX = nat (regionW * regionH) \<and> length tY = nat (regionW * regionH)
           \<and> (\<forall>x y. 0 \<le> x \<longrightarrow> x < regionW \<longrightarrow> 0 \<le> y \<longrightarrow> y < regionH \<longrightarrow>
                 distortCell64 tool s localRadius mouseX mouseY dx dy mapX mapY w h (minX + x) (minY + y)
                   = Some (tX ! nat (y * regionW + x), tY ! nat (y * regionW + x)))"
  unfolding distortRegion64_def
  by (rule region_loop_spec[OF rw rh,
        where D = "\<lambda>x y. distortCell64 tool s localRadius mouseX mouseY dx dy mapX mapY w h
                           (minX + x) (minY + y)"])
     (rule ok)

lemma applyDistortion64_cells:
  assumes e: "mapXRef eng = Some mapX" "mapYRef eng = Some mapY"
      "activeOriginalDataRef eng = Some original"
    and l: "length mapX = width original * height original"
      "length mapY = width original * height original"
  shows "\<exists>mapX' mapY'.
      applyDistortion64 tool bs zoom ls aid eng mouseX mouseY prevX prevY
        = Some (eng\<lparr>mapXRef := Some mapX', mapYRef := Some mapY'\<rparr>)
    \<and> length mapX' = length mapX \<and> length mapY' = length mapY
    \<and> (\<forall>gx gy. 0 \<le> gx \<longrightarrow> gx < int (width original) \<longrightarrow> 0 \<le> gy \<longrightarrow> gy < int (height original) \<longrightarrow>
         (if inBrushBox64 (localRadiusOf64 bs zoom ls aid) mouseX mouseY
               (int (width original)) (int (height original)) gx gy
          then distortCell64 tool (strength bs) (localRadiusOf64 bs zoom ls aid) mouseX mouseY
                 (round64 (mouseX - prevX)) (round64 (mouseY - prevY)) mapX mapY
                 (int (width original)) (int (height original)) gx gy
                 = Some (mapX' ! nat (gy * int (width original) + gx),
                         mapY' ! nat (gy * int (width original) + gx))
          else mapX' ! nat (gy * int (width original) + gx) = mapX ! nat (gy * int (width original) + gx)
             \<and> mapY' ! nat (gy * int (width original) + gx) = mapY ! nat (gy * int (width original) + gx)))"
proof -
  define w where "w = int (width original)"
  define h where "h = int (height original)"
  define R where "R = localRadiusOf64 bs zoom ls aid"
  define minX where "minX = max 0 \<lfloor>round64 (mouseX - R)\<rfloor>"
  define minY where "minY = max 0 \<lfloor>round64 (mouseY - R)\<rfloor>"
  define maxX where "maxX = min w \<lceil>round64 (mouseX + R)\<rceil>"
  define maxY where "maxY = min h \<lceil>round64 (mouseY + R)\<rceil>"
  define regionW where "regionW = maxX - minX"
  define regionH where "regionH = maxY - minY"
  note defs = w_def h_def R_def minX_def minY_def maxX_def maxY_def regionW_def regionH_def
  have lm: "length mapX = nat (w * h)" "length mapY = nat (w * h)"
    using l by (simp_all add: w_def h_def nat_mult_distrib)
  have box: "inBrushBox64 R mouseX mouseY w h gx gy
               \<longleftrightarrow> minX \<le> gx \<and> gx < minX + regionW \<and> minY \<le> gy \<and> gy < minY + regionH" for gx gy
    by (simp add: inBrushBox64_def defs)
  have ad: "applyDistortion64 tool bs zoom ls aid eng mouseX mouseY prevX prevY =
      (if regionW \<le> 0 \<or> regionH \<le> 0 then Some eng
       else distortRegion64 tool (strength bs) R mouseX mouseY (round64 (mouseX - prevX)) (round64 (mouseY - prevY))
              mapX mapY w h minX minY regionW regionH
            \<bind> (\<lambda>(tempMapX, tempMapY).
                  commitRegion tempMapX tempMapY w minX minY regionW regionH (mapX, mapY)
                  \<bind> (\<lambda>(mapX', mapY'). Some (eng\<lparr>mapXRef := Some mapX', mapYRef := Some mapY'\<rparr>))))"
    by (simp add: applyDistortion64_def e Let_def defs)
  have same: "eng\<lparr>mapXRef := Some mapX, mapYRef := Some mapY\<rparr> = eng"
    using e by simp
  show ?thesis
  proof (cases "regionW \<le> 0 \<or> regionH \<le> 0")
    case True
    then have nobox: "\<not> inBrushBox64 R mouseX mouseY w h gx gy" for gx gy
      unfolding box by auto
    show ?thesis
    proof (intro exI conjI)
      show "applyDistortion64 tool bs zoom ls aid eng mouseX mouseY prevX prevY
              = Some (eng\<lparr>mapXRef := Some mapX, mapYRef := Some mapY\<rparr>)"
        using ad True same by simp
      show "\<forall>gx gy. 0 \<le> gx \<longrightarrow> gx < int (width original) \<longrightarrow> 0 \<le> gy \<longrightarrow> gy < int (height original) \<longrightarrow>
         (if inBrushBox64 (localRadiusOf64 bs zoom ls aid) mouseX mouseY
               (int (width original)) (int (height original)) gx gy
          then distortCell64 tool (strength bs) (localRadiusOf64 bs zoom ls aid) mouseX mouseY
                 (round64 (mouseX - prevX)) (round64 (mouseY - prevY)) mapX mapY
                 (int (width original)) (int (height original)) gx gy
                 = Some (mapX ! nat (gy * int (width original) + gx),
                         mapY ! nat (gy * int (width original) + gx))
          else mapX ! nat (gy * int (width original) + gx) = mapX ! nat (gy * int (width original) + gx)
             \<and> mapY ! nat (gy * int (width original) + gx) = mapY ! nat (gy * int (width original) + gx))"
        using nobox unfolding w_def h_def R_def by simp
    qed simp_all
  next
    case False
    then have rw: "0 < regionW" and rh: "0 < regionH" by auto
    have mn: "0 \<le> minX" "0 \<le> minY" by (simp_all add: minX_def minY_def)
    have mx: "minX + regionW \<le> w" "minY + regionH \<le> h"
      by (simp_all add: regionW_def regionH_def maxX_def maxY_def)
    let ?D = "\<lambda>gx gy. distortCell64 tool (strength bs) R mouseX mouseY (round64 (mouseX - prevX)) (round64 (mouseY - prevY))
                 mapX mapY w h gx gy"
    have ok: "\<exists>v. ?D (minX + x) (minY + y) = Some v"
      if "0 \<le> x" "x < regionW" "0 \<le> y" "y < regionH" for x y
    proof (rule distortCell64_Some)
      show "0 \<le> minX + x" "minX + x < w" "0 \<le> minY + y" "minY + y < h" using that mn mx by auto
    qed (rule lm)+
    from distortRegion64_spec[OF rw rh ok]
    obtain tX tY where t:
      "distortRegion64 tool (strength bs) R mouseX mouseY (round64 (mouseX - prevX)) (round64 (mouseY - prevY))
              mapX mapY w h minX minY regionW regionH = Some (tX, tY)"
      "length tX = nat (regionW * regionH)" "length tY = nat (regionW * regionH)"
      "\<And>x y. 0 \<le> x \<Longrightarrow> x < regionW \<Longrightarrow> 0 \<le> y \<Longrightarrow> y < regionH \<Longrightarrow>
          ?D (minX + x) (minY + y) = Some (tX ! nat (y * regionW + x), tY ! nat (y * regionW + x))"
      by blast
    from commitRegion_spec[OF rw rh mn mx t(2,3) lm]
    obtain mX mY where m:
      "commitRegion tX tY w minX minY regionW regionH (mapX, mapY) = Some (mX, mY)"
      "length mX = length mapX" "length mY = length mapY"
      "\<And>x y. 0 \<le> x \<Longrightarrow> x < regionW \<Longrightarrow> 0 \<le> y \<Longrightarrow> y < regionH \<Longrightarrow>
                 mX ! nat ((minY + y) * w + (minX + x)) = tX ! nat (y * regionW + x)
               \<and> mY ! nat ((minY + y) * w + (minX + x)) = tY ! nat (y * regionW + x)"
      "\<And>gx gy. 0 \<le> gx \<Longrightarrow> gx < w \<Longrightarrow> 0 \<le> gy \<Longrightarrow> gy < h \<Longrightarrow>
                 \<not> (minX \<le> gx \<and> gx < minX + regionW \<and> minY \<le> gy \<and> gy < minY + regionH) \<Longrightarrow>
                 mX ! nat (gy * w + gx) = mapX ! nat (gy * w + gx)
               \<and> mY ! nat (gy * w + gx) = mapY ! nat (gy * w + gx)"
      by blast
    have cell: "if inBrushBox64 R mouseX mouseY w h gx gy
          then ?D gx gy = Some (mX ! nat (gy * w + gx), mY ! nat (gy * w + gx))
          else mX ! nat (gy * w + gx) = mapX ! nat (gy * w + gx)
             \<and> mY ! nat (gy * w + gx) = mapY ! nat (gy * w + gx)"
      if g: "0 \<le> gx" "gx < w" "0 \<le> gy" "gy < h" for gx gy
    proof (cases "inBrushBox64 R mouseX mouseY w h gx gy")
      case True
      then have r: "0 \<le> gx - minX" "gx - minX < regionW" "0 \<le> gy - minY" "gy - minY < regionH"
        unfolding box by auto
      from t(4)[OF r] m(4)[OF r] True show ?thesis by simp
    next
      case False
      then have "\<not> (minX \<le> gx \<and> gx < minX + regionW \<and> minY \<le> gy \<and> gy < minY + regionH)"
        unfolding box .
      from m(5)[OF g this] False show ?thesis by simp
    qed
    show ?thesis
    proof (intro exI conjI)
      show "applyDistortion64 tool bs zoom ls aid eng mouseX mouseY prevX prevY
              = Some (eng\<lparr>mapXRef := Some mX, mapYRef := Some mY\<rparr>)"
        using ad False t(1) m(1) by simp
      show "length mX = length mapX" "length mY = length mapY" by (rule m)+
      show "\<forall>gx gy. 0 \<le> gx \<longrightarrow> gx < int (width original) \<longrightarrow> 0 \<le> gy \<longrightarrow> gy < int (height original) \<longrightarrow>
         (if inBrushBox64 (localRadiusOf64 bs zoom ls aid) mouseX mouseY
               (int (width original)) (int (height original)) gx gy
          then distortCell64 tool (strength bs) (localRadiusOf64 bs zoom ls aid) mouseX mouseY
                 (round64 (mouseX - prevX)) (round64 (mouseY - prevY)) mapX mapY
                 (int (width original)) (int (height original)) gx gy
                 = Some (mX ! nat (gy * int (width original) + gx),
                         mY ! nat (gy * int (width original) + gx))
          else mX ! nat (gy * int (width original) + gx) = mapX ! nat (gy * int (width original) + gx)
             \<and> mY ! nat (gy * int (width original) + gx) = mapY ! nat (gy * int (width original) + gx))"
        using cell unfolding w_def h_def R_def by blast
    qed
  qed
qed

lemma round64_one [simp]: "round64 1 = 1"
  using round64_of_int[of 1] by simp

lemma round32_one [simp]: "round32 1 = 1"
  using round32_fixed[of 1 0] by simp







lemma round64_two [simp]: "round64 2 = 2"
  using round64_of_int[of 2] by simp

lemma example_radius64 [simp]: "localRadiusOf64 (example_brush s) 1 [example_layer] ''a'' = 2"
  by (simp add: localRadiusOf64_def example_brush_def example_layer_def)







lemma list4: "length xs = 4 \<Longrightarrow> xs = [xs ! 0, xs ! 1, xs ! 2, xs ! 3]"
  by (rule nth_equalityI) (auto simp: nth_Cons' less_Suc_eq numeral_eq_Suc)

text \<open>The map of \<open>warped_engine\<close> is the one a WARP stroke of strength 1 and radius 1 from
  \<open>(1, 0)\<close> to the centre \<open>(0, 0)\<close> leaves on the identity map, in double precision as in exact
  arithmetic.\<close>

lemma warped_engine_reached:
  "applyDistortion64 WARP \<lparr>brush_size = 2, strength = 1, density = 1 / 2\<rparr> 1 [example_layer] ''a''
      example_engine 0 0 1 0 = Some warped_engine"
proof -
  let ?bs = "\<lparr>brush_size = 2, strength = 1, density = 1 / 2\<rparr>"
  let ?img = "\<lparr>data = 0 :: nat, width = 2, height = 2\<rparr>"
  have e: "mapXRef example_engine = Some [0, 1, 0, 1]" "mapYRef example_engine = Some [0, 0, 1, 1]"
    "activeOriginalDataRef example_engine = Some ?img"
    by (simp_all add: example_engine_def)
  have l: "length [0, 1, 0, 1 :: real] = width ?img * height ?img"
    "length [0, 0, 1, 1 :: real] = width ?img * height ?img"
    by simp_all
  have R: "localRadiusOf64 ?bs 1 [example_layer] ''a'' = 1"
    by (simp add: localRadiusOf64_def example_layer_def)
  have m1: "round64 (- 1) = - 1" using round64_of_int[of "- 1"] by simp
  have box: "inBrushBox64 1 0 0 2 2 gx gy \<longleftrightarrow> gx = 0 \<and> gy = 0" for gx gy
    by (auto simp: inBrushBox64_def m1)
  have c00: "distortCell64 WARP 1 1 0 0 (round64 (0 - 1)) (round64 (0 - 0))
               [0, 1, 0, 1] [0, 0, 1, 1] 2 2 0 0 = Some (1, 0)"
    by (simp add: distortCell64_def brushPower64_def sourceLookup64_def sample64_def arr_get_def
        Let_def m1)
  from applyDistortion64_cells[OF e l, of WARP ?bs 1 "[example_layer]" "''a''" 0 0 1 0]
  obtain mapX' mapY' where a:
    "applyDistortion64 WARP ?bs 1 [example_layer] ''a'' example_engine 0 0 1 0
        = Some (example_engine\<lparr>mapXRef := Some mapX', mapYRef := Some mapY'\<rparr>)"
    and len': "length mapX' = length [0, 1, 0, 1 :: real]" "length mapY' = length [0, 0, 1, 1 :: real]"
    and c: "\<forall>gx gy. 0 \<le> gx \<longrightarrow> gx < int (width ?img) \<longrightarrow> 0 \<le> gy \<longrightarrow> gy < int (height ?img) \<longrightarrow>
         (if inBrushBox64 (localRadiusOf64 ?bs 1 [example_layer] ''a'') 0 0
               (int (width ?img)) (int (height ?img)) gx gy
          then distortCell64 WARP (strength ?bs) (localRadiusOf64 ?bs 1 [example_layer] ''a'') 0 0
                 (round64 (0 - 1)) (round64 (0 - 0)) [0, 1, 0, 1] [0, 0, 1, 1]
                 (int (width ?img)) (int (height ?img)) gx gy
                 = Some (mapX' ! nat (gy * int (width ?img) + gx),
                         mapY' ! nat (gy * int (width ?img) + gx))
          else mapX' ! nat (gy * int (width ?img) + gx) = [0, 1, 0, 1] ! nat (gy * int (width ?img) + gx)
             \<and> mapY' ! nat (gy * int (width ?img) + gx) = [0, 0, 1, 1] ! nat (gy * int (width ?img) + gx))"
    by blast
  have len: "length mapX' = 4" "length mapY' = 4" using len' by simp_all
  have x0: "mapX' ! 0 = 1 \<and> mapY' ! 0 = 0"
    using c[rule_format, of 0 0] c00 by (simp add: R box)
  have x1: "mapX' ! 1 = 1 \<and> mapY' ! 1 = 0"
    using c[rule_format, of 1 0] by (simp add: R box)
  have x2: "mapX' ! 2 = 0 \<and> mapY' ! 2 = 1"
    using c[rule_format, of 0 1] by (simp add: R box)
  have x3: "mapX' ! 3 = 1 \<and> mapY' ! 3 = 1"
    using c[rule_format, of 1 1] by (simp add: R box)
  have x: "mapX' ! 0 = 1" "mapX' ! 1 = 1" "mapX' ! 2 = 0" "mapX' ! 3 = 1"
    and y: "mapY' ! 0 = 0" "mapY' ! 1 = 0" "mapY' ! 2 = 1" "mapY' ! 3 = 1"
    using x0 x1 x2 x3 by simp_all
  have mx: "mapX' = [1, 1, 0, 1]" using list4[OF len(1)] x by simp
  have my: "mapY' = [0, 0, 1, 1]" using list4[OF len(2)] y by simp
  show ?thesis unfolding a mx my by (simp add: example_engine_def warped_engine_def)
qed


end
